theory Spec2Isabelle
  imports Complex_Main "HOL-Library.Char_ord" "HOL-Library.Signed_Division"
begin

section \<open>Arbitrarily large integers (high-accuracy-integer.c)\<close>

text \<open>
  The C module stores an integer as a sign flag and a NUL-terminated character array holding
  the decimal digits in reverse order (least significant digit first).  The model keeps the
  characters: \<open>digits\<close> is the content of the array up to its terminator, so \<open>strlen\<close> is
  \<open>length\<close>.  Characters are compared and converted through their byte code
  (\<open>of_char\<close>, \<open>char_of\<close>); C's \<open>int\<close> is modelled by \<open>int\<close> and its truncating
  \<open>/\<close> and \<open>%\<close> by \<open>sdiv\<close> and \<open>smod\<close>; array lengths and indices are \<open>nat\<close>.

  A function that returns \<open>NULL\<close> after printing an error message returns \<open>Inl\<close> of the
  corresponding error; a failed \<open>assert\<close> and a dereferenced \<open>NULL\<close> are \<open>Inl Abort\<close>.
  Functions containing a \<open>while\<close> loop or a recursion whose termination depends on the
  well-formedness of the arguments return an \<open>option\<close> around that, \<open>None\<close> meaning that
  the call does not return.
\<close>

datatype error = ParseError | InvalidFraction | DivisionByZero | Abort

record ha_int =
  sign :: bool
  digits :: string

definition ha_int_create :: "string \<Rightarrow> error + ha_int" where
  "ha_int_create s =
     (let s_len = length s in
      if s_len = 0 then Inl ParseError
      else if s ! 0 = CHR ''-'' \<and> (s_len = 1 \<or> s ! 1 < CHR ''1'' \<or> s ! 1 > CHR ''9'')
        then Inl ParseError
      else
        let negative = (s ! 0 = CHR ''-'');
            s_idx = (if negative then 1 else 0);
            digit_num = (if negative then s_len - 1 else s_len)
        in if s ! 0 = CHR ''0'' \<and> s_len > 1 then Inl ParseError
           else if list_ex (\<lambda>c. c < CHR ''0'' \<or> c > CHR ''9'') (drop s_idx s)
             then Inl ParseError
           else Inr \<lparr>sign = \<not> negative, digits = rev (take digit_num (drop s_idx s))\<rparr>)"

definition ha_int_copy :: "ha_int \<Rightarrow> ha_int" where
  "ha_int_copy n = \<lparr>sign = sign n, digits = digits n\<rparr>"

text \<open>The comparison loops run from the most significant digit, index \<open>len - 1\<close>, down to 0;
  the third argument is the number of indices still to visit.\<close>

fun eq_loop :: "string \<Rightarrow> string \<Rightarrow> nat \<Rightarrow> bool" where
  "eq_loop n m 0 = True"
| "eq_loop n m (Suc i) = (if n ! i \<noteq> m ! i then False else eq_loop n m i)"

definition ha_int_eq :: "ha_int \<Rightarrow> ha_int \<Rightarrow> bool" where
  "ha_int_eq n m =
     (if sign n \<noteq> sign m then False
      else if length (digits n) \<noteq> length (digits m) then False
      else eq_loop (digits n) (digits m) (length (digits n)))"

fun abs_gt_loop :: "string \<Rightarrow> string \<Rightarrow> nat \<Rightarrow> bool" where
  "abs_gt_loop n m 0 = False"
| "abs_gt_loop n m (Suc i) =
     (if n ! i > m ! i then True
      else if n ! i < m ! i then False
      else abs_gt_loop n m i)"

definition abs_gt :: "ha_int \<Rightarrow> ha_int \<Rightarrow> bool" where
  "abs_gt n m =
     (let n_len = length (digits n); m_len = length (digits m) in
      if n_len > m_len then True
      else if n_len < m_len then False
      else abs_gt_loop (digits n) (digits m) n_len)"

definition ha_int_gt :: "ha_int \<Rightarrow> ha_int \<Rightarrow> bool" where
  "ha_int_gt n m =
     (if sign n \<and> \<not> sign m then True
      else if \<not> sign n \<and> sign m then False
      else if sign n then abs_gt n m
      else abs_gt m n)"

definition get_digit :: "string \<Rightarrow> nat \<Rightarrow> nat \<Rightarrow> int" where
  "get_digit s len pos = (if pos \<ge> len then 0 else of_char (s ! pos) - of_char CHR ''0'')"

text \<open>\<open>digit + '0'\<close> stored into a \<open>char\<close>.\<close>

definition to_char :: "int \<Rightarrow> char" where
  "to_char d = char_of (d + of_char CHR ''0'')"

fun rlz_len :: "string \<Rightarrow> nat \<Rightarrow> nat" where
  "rlz_len num 0 = 0"
| "rlz_len num (Suc k) = (if num ! k = CHR ''0'' \<and> Suc k > 1 then rlz_len num k else Suc k)"

definition remove_leading_zeros :: "string \<Rightarrow> string" where
  "remove_leading_zeros num = take (rlz_len num (length num)) num"

definition init_new_int :: "nat \<Rightarrow> string" where
  "init_new_int len = replicate len CHR ''0''"

definition abs_add_step :: "ha_int \<Rightarrow> ha_int \<Rightarrow> nat \<Rightarrow> int \<times> string \<Rightarrow> int \<times> string" where
  "abs_add_step n m j st =
     (case st of (carry, ds) \<Rightarrow>
        let sum = carry + get_digit (digits m) (length (digits m)) j
                        + get_digit (digits n) (length (digits n)) j
        in (sum sdiv 10, ds[j := to_char (sum smod 10)]))"

definition abs_add :: "ha_int \<Rightarrow> ha_int \<Rightarrow> ha_int" where
  "abs_add n m =
     (let new_int_len = max (length (digits n)) (length (digits m)) + 1;
          st = fold (abs_add_step n m) [0..<new_int_len] (0, init_new_int new_int_len)
      in \<lparr>sign = True, digits = remove_leading_zeros (snd st)\<rparr>)"

definition sub_step :: "string \<Rightarrow> string \<Rightarrow> nat \<Rightarrow> int \<times> string \<Rightarrow> int \<times> string" where
  "sub_step big small i st =
     (case st of (carry, ds) \<Rightarrow>
        let sub = carry + get_digit big (length big) i - get_digit small (length small) i;
            sub' = (if sub < 0 then sub + 10 else sub);
            carry' = (if sub < 0 then - 1 else 0)
        in (carry', ds[i := to_char (sub' smod 10)]))"

definition abs_big_sub_small :: "ha_int \<Rightarrow> ha_int \<Rightarrow> ha_int" where
  "abs_big_sub_small n m =
     (let new_int_len = max (length (digits n)) (length (digits m));
          big = (if abs_gt n m then digits n else digits m);
          small = (if abs_gt n m then digits m else digits n);
          st = fold (sub_step big small) [0..<new_int_len] (0, init_new_int new_int_len)
      in \<lparr>sign = True, digits = remove_leading_zeros (snd st)\<rparr>)"

definition ha_int_add :: "ha_int \<Rightarrow> ha_int \<Rightarrow> ha_int" where
  "ha_int_add n m =
     (if sign n = sign m then (abs_add n m)\<lparr>sign := sign n\<rparr>
      else
        let new_int = abs_big_sub_small n m in
        if abs_gt n m then (if \<not> sign n then new_int\<lparr>sign := False\<rparr> else new_int)
        else if abs_gt m n then (if sign n then new_int\<lparr>sign := False\<rparr> else new_int)
        else new_int)"

definition ha_int_sub :: "ha_int \<Rightarrow> ha_int \<Rightarrow> ha_int" where
  "ha_int_sub n m =
     (if sign n \<noteq> sign m then (abs_add n m)\<lparr>sign := sign n\<rparr>
      else
        let new_int = abs_big_sub_small n m in
        if abs_gt n m then (if \<not> sign n then new_int\<lparr>sign := False\<rparr> else new_int)
        else if abs_gt m n then (if sign n then new_int\<lparr>sign := False\<rparr> else new_int)
        else new_int)"

definition is_zero :: "ha_int \<Rightarrow> bool" where
  "is_zero n = (length (digits n) = 1 \<and> digits n ! 0 = CHR ''0'')"

definition mult_div_sign :: "ha_int \<Rightarrow> ha_int \<Rightarrow> bool" where
  "mult_div_sign n m =
     (if is_zero n \<or> is_zero m then True
      else if sign n = sign m then True
      else False)"

definition mult_inner :: "ha_int \<Rightarrow> ha_int \<Rightarrow> nat \<Rightarrow> nat \<Rightarrow> int \<times> string \<Rightarrow> int \<times> string" where
  "mult_inner n m i j st =
     (case st of (carry, ds) \<Rightarrow>
        let mult = get_digit (digits n) (length (digits n)) i
                     * get_digit (digits m) (length (digits m)) j
                   + get_digit ds (length (digits n) + length (digits m)) (i + j) + carry
        in (mult sdiv 10, ds[i + j := to_char (mult smod 10)]))"

definition mult_outer :: "ha_int \<Rightarrow> ha_int \<Rightarrow> nat \<Rightarrow> string \<Rightarrow> string" where
  "mult_outer n m i ds =
     (let st = fold (mult_inner n m i) [0..<length (digits m)] (0, ds)
      in (snd st)[length (digits m) + i := to_char (fst st)])"

definition ha_int_mult :: "ha_int \<Rightarrow> ha_int \<Rightarrow> ha_int" where
  "ha_int_mult n m =
     (let new_int_len = length (digits n) + length (digits m);
          ds = fold (mult_outer n m) [0..<length (digits n)] (init_new_int new_int_len)
      in \<lparr>sign = mult_div_sign n m, digits = remove_leading_zeros ds\<rparr>)"

text \<open>
  The inner \<open>while\<close> loop of \<open>ha_int_quotient\<close> subtracts the scaled divisor from the running
  dividend for as long as the divisor is not bigger, counting the subtractions.
\<close>

partial_function (option) sub_loop :: "ha_int \<Rightarrow> ha_int \<Rightarrow> int \<Rightarrow> (ha_int \<times> int) option" where
  "sub_loop modified_divisor dividend quot =
     (if abs_gt modified_divisor dividend then Some (dividend, quot)
      else sub_loop modified_divisor (ha_int_sub dividend modified_divisor) (quot + 1))"

declare sub_loop.simps [code]

text \<open>
  The \<open>for\<close> loop of \<open>ha_int_quotient\<close> over \<open>i = m_len, ..., n_len\<close>; its state is the
  running dividend, the counter \<open>dividend_len\<close>, the write position \<open>idx\<close> and the digit
  buffer of the result.  In iteration \<open>i\<close> the counter is \<open>n_len - (i - m_len)\<close>, which is at
  least \<open>m_len\<close>, so \<open>len_differ\<close> is never negative.
\<close>

type_synonym div_state = "ha_int \<times> nat \<times> nat \<times> string"

fun div_loop :: "ha_int \<Rightarrow> nat list \<Rightarrow> div_state \<Rightarrow> (error + div_state) option" where
  "div_loop m [] st = Some (Inr st)"
| "div_loop m (i # is) (dividend, dividend_len, idx, ds) =
     (let len_differ = dividend_len - length (digits m);
          ten_to_power = CHR ''1'' # replicate len_differ CHR ''0''
      in case ha_int_create ten_to_power of
           Inl e \<Rightarrow> Some (Inl Abort)
         | Inr multiplier \<Rightarrow>
             let modified_divisor = (ha_int_mult m multiplier)\<lparr>sign := True\<rparr> in
             case sub_loop modified_divisor dividend 0 of
               None \<Rightarrow> None
             | Some (new_dividend, quot) \<Rightarrow>
                 div_loop m is (new_dividend, dividend_len - 1, idx + 1, ds[idx := to_char quot]))"

definition swap_step :: "nat \<Rightarrow> nat \<Rightarrow> string \<Rightarrow> string" where
  "swap_step idx k ds = (let temp = ds ! k in (ds[k := ds ! (idx - 1 - k)])[idx - 1 - k := temp])"

definition ha_int_quotient :: "ha_int \<Rightarrow> ha_int \<Rightarrow> (error + ha_int) option" where
  "ha_int_quotient n m =
     (if is_zero m then Some (Inl DivisionByZero)
      else
        let n_len = length (digits n);
            m_len = length (digits m);
            new_int_len = n_len;
            new_int = (if abs_gt m n then \<lparr>sign = True, digits = ''0''\<rparr>
                       else \<lparr>sign = mult_div_sign n m, digits = init_new_int new_int_len\<rparr>);
            dividend = (ha_int_copy n)\<lparr>sign := True\<rparr>
        in case div_loop m [m_len..<n_len + 1] (dividend, n_len, 0, digits new_int) of
             None \<Rightarrow> None
           | Some (Inl e) \<Rightarrow> Some (Inl e)
           | Some (Inr (dividend', dividend_len, idx, ds)) \<Rightarrow>
               Some (Inr \<lparr>sign = sign new_int,
                          digits = remove_leading_zeros (fold (swap_step idx) [0..<idx div 2] ds)\<rparr>))"

text \<open>\<open>ha_int_mult\<close> asserts that its arguments are not \<open>NULL\<close>.\<close>

definition ha_int_remainder :: "ha_int \<Rightarrow> ha_int \<Rightarrow> (error + ha_int) option" where
  "ha_int_remainder n m =
     (if is_zero m then Some (Inl DivisionByZero)
      else case ha_int_quotient n m of
             None \<Rightarrow> None
           | Some (Inl e) \<Rightarrow> Some (Inl Abort)
           | Some (Inr quot) \<Rightarrow>
               let mult = ha_int_mult m quot in Some (Inr (ha_int_sub n mult)))"

definition ha_int_to_str :: "ha_int \<Rightarrow> string" where
  "ha_int_to_str n =
     (let len = (if \<not> sign n then length (digits n) + 1 else length (digits n));
          front_idx = (if \<not> sign n then 1 else 0)
      in (if \<not> sign n then ''-'' else []) @ take (len - front_idx) (rev (digits n)))"

section \<open>Arbitrarily large fractions (high-accuracy-fraction.c)\<close>

record ha_frac =
  nega :: bool
  nume :: ha_int
  denom :: ha_int

definition ha_int_cmp :: "ha_int \<Rightarrow> ha_int \<Rightarrow> int" where
  "ha_int_cmp n m = (if ha_int_gt n m then 1 else if ha_int_eq n m then 0 else - 1)"

text \<open>
  \<open>ha_int_create\<close> applied to a string literal of the program text.  The two literals used,
  \<open>"0"\<close> and \<open>"1"\<close>, are accepted by \<open>ha_int_create\<close> (lemmas \<open>ha_int_create_0\<close> and
  \<open>ha_int_create_1\<close> below), so the \<open>NULL\<close> branch is never taken for them.
\<close>

definition ha_int_literal :: "string \<Rightarrow> ha_int" where
  "ha_int_literal s = (case ha_int_create s of Inr v \<Rightarrow> v | Inl e \<Rightarrow> \<lparr>sign = True, digits = []\<rparr>)"

definition ha_int_sign :: "ha_int \<Rightarrow> int" where
  "ha_int_sign n = (let zero = ha_int_literal ''0'' in ha_int_cmp n zero)"

text \<open>
  \<open>get_gcd\<close> is recursive, and whether the recursion ends depends on its arguments.  Its two
  assertions are part of the model.  \<open>ha_int_remainder\<close> returning \<open>NULL\<close> would trip the
  assertion of \<open>ha_int_cmp\<close>.
\<close>

partial_function (option) get_gcd :: "ha_int \<Rightarrow> ha_int \<Rightarrow> (error + ha_int) option" where
  "get_gcd small big =
     (if \<not> ha_int_sign small > 0 then Some (Inl Abort)
      else if \<not> ha_int_sign big > 0 then Some (Inl Abort)
      else case ha_int_remainder big small of
             None \<Rightarrow> None
           | Some (Inl e) \<Rightarrow> Some (Inl Abort)
           | Some (Inr remain) \<Rightarrow>
               if ha_int_sign remain = 0 then Some (Inr (ha_int_copy small))
               else get_gcd remain small)"

declare get_gcd.simps [code]

definition posi_copy :: "ha_int \<Rightarrow> ha_int" where
  "posi_copy n =
     (if ha_int_sign n < 0 then (let zero = ha_int_literal ''0'' in ha_int_sub zero n)
      else ha_int_copy n)"

text \<open>
  Two results in sequence, both needed by the code that follows: the second call is made
  whatever the first returned, and a \<open>NULL\<close> among them makes the next BigInt operation or
  the next use of the fraction dereference it.
\<close>

definition both :: "(error + 'a) option \<Rightarrow> (error + 'a) option \<Rightarrow> (error + 'a \<times> 'a) option" where
  "both r1 r2 =
     (case r1 of None \<Rightarrow> None
      | Some x1 \<Rightarrow>
         (case r2 of None \<Rightarrow> None
          | Some x2 \<Rightarrow>
             (case (x1, x2) of (Inr a, Inr b) \<Rightarrow> Some (Inr (a, b)) | _ \<Rightarrow> Some (Inl Abort))))"

definition ha_frac_reduc :: "ha_int \<Rightarrow> ha_int \<Rightarrow> (error + ha_frac) option" where
  "ha_frac_reduc nume0 denom0 =
     (if ha_int_sign denom0 = 0 then Some (Inl Abort)
      else
        let n_sign = ha_int_sign nume0; d_sign = ha_int_sign denom0 in
        if n_sign = 0
        then Some (Inr \<lparr>nega = False, nume = ha_int_literal ''0'', denom = ha_int_literal ''1''\<rparr>)
        else
          let negative = \<not> ((n_sign > 0 \<and> d_sign > 0) \<or> (n_sign < 0 \<and> d_sign < 0));
              n_cpy = posi_copy nume0;
              d_cpy = posi_copy denom0;
              cmp = ha_int_cmp n_cpy d_cpy
          in if cmp = 0
             then Some (Inr \<lparr>nega = negative, nume = ha_int_literal ''1'',
                              denom = ha_int_literal ''1''\<rparr>)
             else
               case (if cmp = 1 then get_gcd d_cpy n_cpy else get_gcd n_cpy d_cpy) of
                 None \<Rightarrow> None
               | Some (Inl e) \<Rightarrow> Some (Inl e)
               | Some (Inr gcd') \<Rightarrow>
                   (case both (ha_int_quotient n_cpy gcd') (ha_int_quotient d_cpy gcd') of
                      None \<Rightarrow> None
                    | Some (Inl e) \<Rightarrow> Some (Inl e)
                    | Some (Inr (a, b)) \<Rightarrow> Some (Inr \<lparr>nega = negative, nume = a, denom = b\<rparr>)))"

text \<open>
  On a \<open>NULL\<close> numerator or denominator the error branch of \<open>ha_frac_create\<close> passes it to
  \<open>ha_int_destroy\<close>, whose assertion fails; only a zero denominator reaches \<open>return NULL\<close>.
\<close>

definition ha_frac_create :: "string \<Rightarrow> string \<Rightarrow> (error + ha_frac) option" where
  "ha_frac_create numerator denominator =
     (case ha_int_create numerator of
        Inl e \<Rightarrow> Some (Inl Abort)
      | Inr nume0 \<Rightarrow>
          (case ha_int_create denominator of
             Inl e \<Rightarrow> Some (Inl Abort)
           | Inr denom0 \<Rightarrow>
               if ha_int_sign denom0 = 0 then Some (Inl InvalidFraction)
               else ha_frac_reduc nume0 denom0))"

text \<open>
  \<open>ha_frac_add\<close> in its two phases.  The first brings the operands to a common denominator:
  it yields \<open>new_n_nume\<close>, \<open>new_m_nume\<close> and \<open>new_denom\<close>, copies of the numerators and of
  the denominator when the denominators are equal, and otherwise the numerators multiplied by
  the complementary cofactors \<open>n_mult\<close> and \<open>m_mult\<close> of the denominators' gcd.
\<close>

definition ha_frac_add_operands ::
    "ha_frac \<Rightarrow> ha_frac \<Rightarrow> (error + ha_int \<times> ha_int \<times> ha_int) option" where
  "ha_frac_add_operands n m =
     (let cmp = ha_int_cmp (denom n) (denom m) in
      if cmp = 0
      then Some (Inr (ha_int_copy (nume n), ha_int_copy (nume m), ha_int_copy (denom n)))
      else
        case (if cmp > 0 then get_gcd (denom m) (denom n)
              else get_gcd (denom n) (denom m)) of
          None \<Rightarrow> None
        | Some (Inl e) \<Rightarrow> Some (Inl e)
        | Some (Inr gcd') \<Rightarrow>
            (case both (ha_int_quotient (denom m) gcd') (ha_int_quotient (denom n) gcd') of
               None \<Rightarrow> None
             | Some (Inl e) \<Rightarrow> Some (Inl e)
             | Some (Inr (n_mult, m_mult)) \<Rightarrow>
                 Some (Inr (ha_int_mult n_mult (nume n), ha_int_mult m_mult (nume m),
                            ha_int_mult n_mult (denom n)))))"

text \<open>
  The second phase adds or subtracts the numerators according to the two sign flags and
  reduces through \<open>ha_frac_create\<close>.  When that returns \<open>NULL\<close>, the assignment to
  \<open>result->nega\<close> dereferences it if both operands are negative; otherwise \<open>NULL\<close> is
  returned.
\<close>

definition ha_frac_add :: "ha_frac \<Rightarrow> ha_frac \<Rightarrow> (error + ha_frac) option" where
  "ha_frac_add n m =
     (case ha_frac_add_operands n m of
        None \<Rightarrow> None
      | Some (Inl e) \<Rightarrow> Some (Inl e)
      | Some (Inr (new_n_nume, new_m_nume, new_denom)) \<Rightarrow>
          let new_nume =
                (if (nega n \<and> nega m) \<or> (\<not> nega n \<and> \<not> nega m) then ha_int_add new_n_nume new_m_nume
                 else if nega n then ha_int_sub new_m_nume new_n_nume
                 else ha_int_sub new_n_nume new_m_nume)
          in case ha_frac_create (ha_int_to_str new_nume) (ha_int_to_str new_denom) of
               None \<Rightarrow> None
             | Some (Inl e) \<Rightarrow> if nega n \<and> nega m then Some (Inl Abort) else Some (Inl e)
             | Some (Inr result) \<Rightarrow>
                 Some (Inr (if nega n \<and> nega m then result\<lparr>nega := True\<rparr> else result)))"

definition ha_frac_sub :: "ha_frac \<Rightarrow> ha_frac \<Rightarrow> (error + ha_frac) option" where
  "ha_frac_sub n m =
     (let m_cpy = \<lparr>nega = (if \<not> nega m then True else False),
                   nume = ha_int_copy (nume m), denom = ha_int_copy (denom m)\<rparr>
      in ha_frac_add n m_cpy)"

definition ha_frac_mult :: "ha_frac \<Rightarrow> ha_frac \<Rightarrow> (error + ha_frac) option" where
  "ha_frac_mult n m =
     (let new_nume = ha_int_mult (nume n) (nume m);
          new_denom = ha_int_mult (denom n) (denom m)
      in case ha_frac_create (ha_int_to_str new_nume) (ha_int_to_str new_denom) of
           None \<Rightarrow> None
         | Some (Inl e) \<Rightarrow> Some (Inl Abort)
         | Some (Inr result) \<Rightarrow>
             Some (Inr (if nega n = nega m \<or> ha_int_sign (nume n) = 0 \<or> ha_int_sign (nume m) = 0
                        then result\<lparr>nega := False\<rparr> else result\<lparr>nega := True\<rparr>)))"

definition ha_frac_div :: "ha_frac \<Rightarrow> ha_frac \<Rightarrow> (error + ha_frac) option" where
  "ha_frac_div n m =
     (if \<not> ha_int_sign (nume m) \<noteq> 0 then Some (Inl Abort)
      else
        let m_reci = \<lparr>nega = nega m, nume = ha_int_copy (denom m), denom = ha_int_copy (nume m)\<rparr>
        in ha_frac_mult n m_reci)"

definition ha_frac_cmp :: "ha_frac \<Rightarrow> ha_frac \<Rightarrow> (error + int) option" where
  "ha_frac_cmp n m =
     (case ha_frac_sub n m of
        None \<Rightarrow> None
      | Some (Inl e) \<Rightarrow> Some (Inl Abort)
      | Some (Inr n_sub_m) \<Rightarrow>
          Some (Inr (if nega n_sub_m then - 1
                     else if \<not> ha_int_sign (nume n_sub_m) \<noteq> 0 then 0
                     else 1)))"

section \<open>The values represented, and the invariants of the specification\<close>

text \<open>A decimal digit character, and the digit it stands for.\<close>

definition digit_char :: "char \<Rightarrow> bool" where
  "digit_char c = (CHR ''0'' \<le> c \<and> c \<le> CHR ''9'')"

definition dig :: "char \<Rightarrow> int" where
  "dig c = of_char c - of_char CHR ''0''"

text \<open>The number denoted by a digit array, least significant digit first.\<close>

fun dval :: "string \<Rightarrow> int" where
  "dval [] = 0"
| "dval (c # cs) = dig c + 10 * dval cs"

text \<open>
  The BigInt invariants: the digit sequence is not empty, every stored digit is in [0,9],
  there is no redundant leading zero (the last character in storage order) except for the
  single digit of zero, and zero is stored as non-negative.
\<close>

definition digits_ok :: "string \<Rightarrow> bool" where
  "digits_ok ds = (ds \<noteq> [] \<and> list_all digit_char ds \<and> (length ds > 1 \<longrightarrow> last ds \<noteq> CHR ''0''))"

definition ha_int_valid :: "ha_int \<Rightarrow> bool" where
  "ha_int_valid n = (digits_ok (digits n) \<and> (\<not> sign n \<longrightarrow> digits n \<noteq> ''0''))"

definition ha_int_value :: "ha_int \<Rightarrow> int" where
  "ha_int_value n = (if sign n then dval (digits n) else - dval (digits n))"

text \<open>
  The strings the specification calls valid: an optional leading minus sign followed by one
  or more decimal digits, without superfluous leading zeros, and not \<open>"-0"\<close>.
\<close>

definition valid_decimal :: "string \<Rightarrow> bool" where
  "valid_decimal s =
     (let body = (if s \<noteq> [] \<and> hd s = CHR ''-'' then tl s else s) in
      body \<noteq> [] \<and> list_all digit_char body \<and> (length body > 1 \<longrightarrow> hd body \<noteq> CHR ''0'')
      \<and> s \<noteq> ''-0'')"

text \<open>
  The Fraction invariants: numerator and denominator are well-formed non-negative magnitudes,
  the denominator is positive, the fraction is fully reduced, the sign lives in \<open>nega\<close> only,
  and zero is stored as \<open>(false, 0, 1)\<close>.
\<close>

definition ha_frac_valid :: "ha_frac \<Rightarrow> bool" where
  "ha_frac_valid f =
     (ha_int_valid (nume f) \<and> ha_int_valid (denom f) \<and> sign (nume f) \<and> sign (denom f)
      \<and> 0 < ha_int_value (denom f)
      \<and> gcd (ha_int_value (nume f)) (ha_int_value (denom f)) = 1
      \<and> (ha_int_value (nume f) = 0 \<longrightarrow> \<not> nega f \<and> digits (denom f) = ''1''))"

text \<open>
  The weaker form that \<open>ha_frac_sub\<close> and \<open>ha_frac_div\<close> hand to \<open>ha_frac_add\<close> and
  \<open>ha_frac_mult\<close>: well-formed non-negative numerator, well-formed positive denominator, but
  not necessarily reduced, and possibly a zero flagged negative.
\<close>

definition ha_frac_wf :: "ha_frac \<Rightarrow> bool" where
  "ha_frac_wf f =
     (ha_int_valid (nume f) \<and> ha_int_valid (denom f) \<and> sign (nume f) \<and> sign (denom f)
      \<and> 0 < ha_int_value (denom f))"

definition ha_frac_value :: "ha_frac \<Rightarrow> rat" where
  "ha_frac_value f =
     (if nega f then - (of_int (ha_int_value (nume f)) / of_int (ha_int_value (denom f)))
      else of_int (ha_int_value (nume f)) / of_int (ha_int_value (denom f)))"

section \<open>Auxiliary lemmas\<close>

lemma digit_char_iff: "digit_char c \<longleftrightarrow> 48 \<le> (of_char c :: nat) \<and> (of_char c :: nat) \<le> 57"
  by (simp add: digit_char_def less_eq_char_def)

lemma dig_eq: "dig c = int (of_char c) - 48"
  by (simp add: dig_def of_nat_of_char)

lemma dig_range: "digit_char c \<Longrightarrow> 0 \<le> dig c \<and> dig c \<le> 9"
  by (simp add: digit_char_iff dig_eq)

lemma dig_zero [simp]: "dig CHR ''0'' = 0"
  by (simp add: dig_def)

lemma digit_char_zero [simp]: "digit_char CHR ''0''"
  by (simp add: digit_char_iff)

lemma dig_inj: "dig a = dig b \<Longrightarrow> a = b"
  by (simp add: dig_eq)

lemma dig_eq_0_iff: "dig c = 0 \<longleftrightarrow> c = CHR ''0''"
  using dig_inj [of c "CHR ''0''"] by auto

lemma of_char_to_char_int: "0 \<le> d \<Longrightarrow> d \<le> 9 \<Longrightarrow> (of_char (to_char d) :: int) = d + 48"
  by (simp add: to_char_def)

lemma of_char_to_char: "0 \<le> d \<Longrightarrow> d \<le> 9 \<Longrightarrow> (of_char (to_char d) :: nat) = nat d + 48"
proof -
  assume a: "0 \<le> d" "d \<le> 9"
  have "(of_char (to_char d) :: nat) = nat (of_char (to_char d) :: int)"
    by (simp only: nat_of_char)
  then show ?thesis using a by (simp add: of_char_to_char_int nat_add_distrib)
qed

lemma to_char_dig: "0 \<le> d \<Longrightarrow> d \<le> 9 \<Longrightarrow> dig (to_char d) = d"
  by (simp add: dig_eq of_char_to_char)

lemma to_char_digit: "0 \<le> d \<Longrightarrow> d \<le> 9 \<Longrightarrow> digit_char (to_char d)"
  by (simp add: digit_char_iff of_char_to_char)

lemma to_char_0 [simp]: "to_char 0 = CHR ''0''"
  by (rule of_char_eqI [where ?'a = int]) (simp add: to_char_def)


subsection \<open>Digit arrays\<close>

lemma dval_append: "dval (xs @ ys) = dval xs + 10 ^ length xs * dval ys"
  by (induction xs) (simp_all add: algebra_simps)

lemma dval_replicate_zero [simp]: "dval (replicate k CHR ''0'') = 0"
  by (induction k) simp_all

lemma dval_update:
  "k < length ds \<Longrightarrow> dval (ds[k := c]) = dval ds + (dig c - dig (ds ! k)) * 10 ^ k"
proof (induction ds arbitrary: k)
  case Nil
  then show ?case by simp
next
  case (Cons a ds)
  show ?case
  proof (cases k)
    case 0
    then show ?thesis by (simp add: algebra_simps)
  next
    case (Suc j)
    then have "dval (ds[j := c]) = dval ds + (dig c - dig (ds ! j)) * 10 ^ j"
      using Cons by simp
    then show ?thesis using Suc by (simp add: algebra_simps)
  qed
qed

lemma dval_nonneg: "list_all digit_char ds \<Longrightarrow> 0 \<le> dval ds"
  by (induction ds) (use dig_range in \<open>auto\<close>)

lemma dval_less: "list_all digit_char ds \<Longrightarrow> dval ds < 10 ^ length ds"
proof (induction ds)
  case Nil
  then show ?case by simp
next
  case (Cons a ds)
  then have "dig a \<le> 9" "dval ds + 1 \<le> 10 ^ length ds"
    using dig_range [of a] by auto
  then show ?case by simp
qed

lemma dval_take_Suc:
  "k < length ds \<Longrightarrow> dval (take (Suc k) ds) = dval (take k ds) + dig (ds ! k) * 10 ^ k"
  by (simp add: take_Suc_conv_app_nth dval_append)

lemma list_all_take: "list_all P xs \<Longrightarrow> list_all P (take k xs)"
  by (auto simp: list_all_iff dest: in_set_takeD)

lemma list_all_update: "list_all P xs \<Longrightarrow> P c \<Longrightarrow> list_all P (xs[k := c])"
  by (auto simp: list_all_iff dest!: set_update_subset_insert [THEN subsetD])

subsection \<open>\<open>remove_leading_zeros\<close>\<close>

lemma rlz_len_le: "rlz_len num k \<le> k"
  by (induction k) (auto intro: le_SucI)

lemma rlz_len_pos: "0 < k \<Longrightarrow> 0 < rlz_len num k"
  by (induction k) auto

lemma rlz_len_top: "1 < rlz_len num k \<Longrightarrow> num ! (rlz_len num k - 1) \<noteq> CHR ''0''"
  by (induction k) (auto split: if_splits)

lemma rlz_len_dval: "k \<le> length num \<Longrightarrow> dval (take (rlz_len num k) num) = dval (take k num)"
proof (induction k)
  case 0
  then show ?case by simp
next
  case (Suc k)
  then show ?case by (auto simp: dval_take_Suc)
qed

lemma dval_remove_leading_zeros [simp]: "dval (remove_leading_zeros num) = dval num"
  by (simp add: remove_leading_zeros_def rlz_len_dval)

lemma digits_ok_remove_leading_zeros:
  assumes "num \<noteq> []" "list_all digit_char num"
  shows "digits_ok (remove_leading_zeros num)"
proof -
  let ?r = "rlz_len num (length num)"
  have r: "0 < ?r" "?r \<le> length num"
    using assms(1) by (simp_all add: rlz_len_pos rlz_len_le)
  then have "last (take ?r num) = num ! (?r - 1)"
    by (cases ?r) (simp_all add: take_Suc_conv_app_nth)
  moreover have "length (take ?r num) = ?r"
    using r by simp
  ultimately show ?thesis
    using r assms(2) rlz_len_top [of num "length num"]
    by (auto simp: digits_ok_def remove_leading_zeros_def list_all_take)
qed

subsection \<open>A well-formed digit array is determined by its value\<close>

lemma dval_lower:
  assumes "digits_ok ds" "1 < length ds"
  shows "10 ^ (length ds - 1) \<le> dval ds"
proof -
  from assms have ne: "ds \<noteq> []" and l: "last ds \<noteq> CHR ''0''" and a: "list_all digit_char ds"
    by (auto simp: digits_ok_def)
  have ds: "ds = butlast ds @ [last ds]"
    using ne by simp
  have e: "dval ds = dval (butlast ds) + 10 ^ (length ds - 1) * dig (last ds)"
    by (subst ds) (simp add: dval_append)
  have b: "0 \<le> dval (butlast ds)"
    using a by (intro dval_nonneg) (auto simp: list_all_iff dest: in_set_butlastD)
  have "1 \<le> dig (last ds)"
    using a l ne dig_range [of "last ds"] dig_eq_0_iff [of "last ds"]
    by (auto simp: list_all_iff order_le_less)
  then have "(10::int) ^ (length ds - 1) * 1 \<le> 10 ^ (length ds - 1) * dig (last ds)"
    by (intro mult_left_mono) auto
  then have "(10::int) ^ (length ds - 1) \<le> 10 ^ (length ds - 1) * dig (last ds)"
    by (simp only: mult_1_right)
  with e b show ?thesis by linarith
qed

lemma dval_eq_same_length:
  "length a = length b \<Longrightarrow> list_all digit_char a \<Longrightarrow> list_all digit_char b
    \<Longrightarrow> dval a = dval b \<Longrightarrow> a = b"
proof (induction a b rule: list_induct2)
  case Nil
  then show ?case by simp
next
  case (Cons x xs y ys)
  then have "0 \<le> dig x \<and> dig x \<le> 9" "0 \<le> dig y \<and> dig y \<le> 9"
    using dig_range by auto
  moreover have "dig x + 10 * dval xs = dig y + 10 * dval ys"
    using Cons.prems by simp
  ultimately have "dig x = dig y \<and> dval xs = dval ys"
    by presburger
  then show ?case using Cons dig_inj by auto
qed

lemma digits_ok_length_le:
  assumes "digits_ok a" "digits_ok b" "dval a \<le> dval b"
  shows "length a \<le> length b"
proof (rule ccontr)
  assume "\<not> length a \<le> length b"
  then have lt: "length b < length a" by simp
  moreover have "1 \<le> length b"
    using assms(2) by (cases b) (auto simp: digits_ok_def)
  ultimately have "1 < length a" by simp
  then have "10 ^ (length a - 1) \<le> dval a"
    using assms(1) dval_lower by blast
  moreover have "dval b < 10 ^ length b"
    using assms(2) by (simp add: digits_ok_def dval_less)
  moreover have "(10::int) ^ length b \<le> 10 ^ (length a - 1)"
    using lt by (intro power_increasing) auto
  ultimately show False using assms(3) by linarith
qed

lemma digits_ok_unique:
  assumes "digits_ok a" "digits_ok b" "dval a = dval b"
  shows "a = b"
proof -
  have "length a = length b"
    using digits_ok_length_le [OF assms(1,2)] digits_ok_length_le [OF assms(2,1)] assms(3)
    by simp
  then show ?thesis
    using assms by (auto simp: digits_ok_def intro: dval_eq_same_length)
qed

subsection \<open>Parsing and printing\<close>

lemma not_digit_char: "(c < CHR ''0'' \<or> c > CHR ''9'') \<longleftrightarrow> \<not> digit_char c"
  by (auto simp: digit_char_def)

lemma list_ex_not_digit:
  "list_ex (\<lambda>c. c < CHR ''0'' \<or> c > CHR ''9'') xs \<longleftrightarrow> \<not> list_all digit_char xs"
  by (simp add: list_ex_iff list_all_iff not_digit_char)

lemma char_eq_zero_iff: "c = CHR ''0'' \<longleftrightarrow> (of_char c :: nat) = 48"
  using of_char_eq_iff [of c "CHR ''0''", where ?'a = nat] by simp

lemma not_nonzero_digit: "(d < CHR ''1'' \<or> d > CHR ''9'') \<longleftrightarrow> \<not> digit_char d \<or> d = CHR ''0''"
  by (auto simp: digit_char_iff less_char_def char_eq_zero_iff)

lemma minus_not_digit [simp]: "\<not> digit_char CHR ''-''"
  by (simp add: digit_char_iff)

lemma ha_int_create_eq:
  "ha_int_create s =
     (if valid_decimal s
      then Inr \<lparr>sign = (hd s \<noteq> CHR ''-''), digits = rev (if hd s = CHR ''-'' then tl s else s)\<rparr>
      else Inl ParseError)"
proof (cases s)
  case Nil
  then show ?thesis by (simp add: ha_int_create_def valid_decimal_def)
next
  case (Cons c cs)
  show ?thesis
  proof (cases "c = CHR ''-''")
    case True
    show ?thesis
    proof (cases cs)
      case Nil
      then show ?thesis using Cons True by (simp add: ha_int_create_def valid_decimal_def)
    next
      case (Cons d ds)
      then show ?thesis using \<open>s = c # cs\<close> True
        by (auto simp: ha_int_create_def valid_decimal_def list_ex_not_digit not_nonzero_digit)
    qed
  next
    case False
    then show ?thesis using Cons
      by (cases cs) (auto simp: ha_int_create_def valid_decimal_def list_ex_not_digit Let_def)
  qed
qed

lemma ha_int_to_str_eq: "ha_int_to_str n = (if sign n then [] else ''-'') @ rev (digits n)"
  by (simp add: ha_int_to_str_def)

lemma ha_int_to_str_create: "ha_int_create s = Inr v \<Longrightarrow> ha_int_to_str v = s"
  by (cases s) (auto simp: ha_int_create_eq ha_int_to_str_eq valid_decimal_def split: if_splits)

lemma ha_int_create_valid:
  assumes "ha_int_create s = Inr v"
  shows "ha_int_valid v"
proof -
  define body where "body = (if s \<noteq> [] \<and> hd s = CHR ''-'' then tl s else s)"
  from assms have vd: "valid_decimal s"
    and v: "v = \<lparr>sign = (hd s \<noteq> CHR ''-''), digits = rev (if hd s = CHR ''-'' then tl s else s)\<rparr>"
    by (auto simp: ha_int_create_eq split: if_splits)
  from vd have b: "body \<noteq> []" "list_all digit_char body" "length body > 1 \<longrightarrow> hd body \<noteq> CHR ''0''"
    "s \<noteq> ''-0''"
    by (auto simp: valid_decimal_def body_def Let_def)
  have s: "s \<noteq> []" using b(1) by (auto simp: body_def)
  have d: "digits v = rev body" using v s by (auto simp: body_def)
  have "digits_ok (rev body)"
    using b by (auto simp: digits_ok_def last_rev)
  moreover have "\<not> sign v \<longrightarrow> rev body \<noteq> ''0''"
  proof (intro impI notI)
    assume "\<not> sign v" "rev body = ''0''"
    then have "hd s = CHR ''-''" "body = ''0''" using v by (auto simp: rev_eq_Cons_iff)
    then have "s = ''-0''" using s by (cases s) (auto simp: body_def)
    with b(4) show False by simp
  qed
  ultimately show ?thesis by (simp add: ha_int_valid_def d)
qed

lemma valid_decimal_to_str:
  assumes "ha_int_valid v"
  shows "valid_decimal (ha_int_to_str v)"
    and "ha_int_create (ha_int_to_str v) = Inr v"
proof -
  from assms have ne: "digits v \<noteq> []" and a: "list_all digit_char (digits v)"
    and l: "length (digits v) > 1 \<longrightarrow> last (digits v) \<noteq> CHR ''0''"
    and z: "\<not> sign v \<longrightarrow> digits v \<noteq> ''0''"
    by (auto simp: ha_int_valid_def digits_ok_def)
  have h: "hd (rev (digits v)) = last (digits v)"
    using ne by (simp add: hd_rev)
  have "digit_char (last (digits v))"
    using a ne by (auto simp: list_all_iff)
  then have nm: "last (digits v) \<noteq> CHR ''-''"
    by auto
  show vd: "valid_decimal (ha_int_to_str v)"
  proof (cases "sign v")
    case True
    then show ?thesis
      using ne a l h nm by (auto simp: valid_decimal_def ha_int_to_str_eq)
  next
    case False
    then have "rev (digits v) \<noteq> ''0''"
      using z by (auto simp: rev_eq_Cons_iff)
    then show ?thesis
      using False ne a l h by (simp add: valid_decimal_def ha_int_to_str_eq)
  qed
  show "ha_int_create (ha_int_to_str v) = Inr v"
    unfolding ha_int_create_eq using vd
    by (cases "sign v") (use h nm ne in \<open>auto simp: ha_int_to_str_eq\<close>)
qed

lemma ha_int_create_0: "ha_int_create ''0'' = Inr \<lparr>sign = True, digits = ''0''\<rparr>"
  by (simp add: ha_int_create_def)

lemma ha_int_create_1: "ha_int_create ''1'' = Inr \<lparr>sign = True, digits = ''1''\<rparr>"
  by (simp add: ha_int_create_def)

lemma ha_int_literal_0 [simp]: "ha_int_literal ''0'' = \<lparr>sign = True, digits = ''0''\<rparr>"
  by (simp add: ha_int_literal_def ha_int_create_0)

lemma ha_int_literal_1 [simp]: "ha_int_literal ''1'' = \<lparr>sign = True, digits = ''1''\<rparr>"
  by (simp add: ha_int_literal_def ha_int_create_1)

subsection \<open>Comparison\<close>

lemma eq_loop_iff:
  "k \<le> length n \<Longrightarrow> k \<le> length m \<Longrightarrow> eq_loop n m k \<longleftrightarrow> take k n = take k m"
  by (induction k) (auto simp: take_Suc_conv_app_nth)

lemma ha_int_eq_iff': "ha_int_eq n m \<longleftrightarrow> sign n = sign m \<and> digits n = digits m"
  by (auto simp: ha_int_eq_def eq_loop_iff)

lemma ha_int_eq_iff: "ha_int_eq n m \<longleftrightarrow> n = m"
  unfolding ha_int_eq_iff' by auto

lemma abs_gt_loop_asym:
  "abs_gt_loop n m k \<Longrightarrow> \<not> abs_gt_loop m n k"
proof (induction k)
  case 0
  then show ?case by simp
next
  case (Suc k)
  consider "n ! k < m ! k" "\<not> m ! k < n ! k" | "m ! k < n ! k" "\<not> n ! k < m ! k"
    | "n ! k = m ! k"
    by (cases "n ! k" "m ! k" rule: linorder_cases) simp_all
  then show ?case using Suc by cases simp_all
qed

lemma abs_gt_loop_total:
  "k \<le> length n \<Longrightarrow> k \<le> length m \<Longrightarrow> \<not> abs_gt_loop n m k \<Longrightarrow> \<not> abs_gt_loop m n k
    \<Longrightarrow> take k n = take k m"
proof (induction k)
  case 0
  then show ?case by simp
next
  case (Suc k)
  consider "n ! k < m ! k" | "m ! k < n ! k" | "n ! k = m ! k"
    using less_linear by blast
  then show ?case using Suc by cases (simp_all add: take_Suc_conv_app_nth)
qed

lemma abs_gt_loop_irrefl: "\<not> abs_gt_loop n n k"
  by (induction k) simp_all

lemma abs_gt_asym: "abs_gt n m \<Longrightarrow> \<not> abs_gt m n"
  using abs_gt_loop_asym [of "digits n" "digits m" "length (digits n)"]
  by (cases "length (digits n)" "length (digits m)" rule: linorder_cases) (simp_all add: abs_gt_def)

lemma abs_gt_total: "\<not> abs_gt n m \<Longrightarrow> \<not> abs_gt m n \<Longrightarrow> digits n = digits m"
  using abs_gt_loop_total [of "length (digits n)" "digits n" "digits m"]
  by (cases "length (digits n)" "length (digits m)" rule: linorder_cases) (simp_all add: abs_gt_def)

lemma abs_gt_irrefl: "digits n = digits m \<Longrightarrow> \<not> abs_gt n m"
  by (simp add: abs_gt_def abs_gt_loop_irrefl)

lemma ha_int_gt_trichotomy: "ha_int_gt n m \<longleftrightarrow> \<not> ha_int_gt m n \<and> \<not> ha_int_eq n m"
proof -
  have a: "abs_gt n m \<longleftrightarrow> \<not> abs_gt m n \<and> digits n \<noteq> digits m"
    using abs_gt_asym [of n m] abs_gt_total [of n m] abs_gt_irrefl [of n m] by blast
  have b: "abs_gt m n \<longleftrightarrow> \<not> abs_gt n m \<and> digits n \<noteq> digits m"
    using abs_gt_asym [of m n] abs_gt_total [of n m] abs_gt_irrefl [of m n] by metis
  show ?thesis
  proof (cases "sign n")
    case True
    then show ?thesis
      using a by (cases "sign m") (simp_all add: ha_int_gt_def ha_int_eq_iff')
  next
    case False
    then show ?thesis
      using b by (cases "sign m") (simp_all add: ha_int_gt_def ha_int_eq_iff')
  qed
qed

lemma char_less_dig: "a < b \<longleftrightarrow> dig a < dig b"
  by (simp add: less_char_def dig_eq)

lemma abs_gt_loop_iff:
  assumes "list_all digit_char n" "list_all digit_char m" "k \<le> length n" "k \<le> length m"
  shows "abs_gt_loop n m k \<longleftrightarrow> dval (take k m) < dval (take k n)"
  using assms(3,4)
proof (induction k)
  case 0
  then show ?case by simp
next
  case (Suc k)
  let ?P = "(10::int) ^ k"
  let ?a = "dval (take k n)" and ?b = "dval (take k m)"
  let ?x = "dig (n ! k)" and ?y = "dig (m ! k)"
  have a: "0 \<le> ?a" "?a < ?P" and b: "0 \<le> ?b" "?b < ?P"
    using assms(1,2) Suc.prems dval_nonneg [of "take k n"] dval_less [of "take k n"]
      dval_nonneg [of "take k m"] dval_less [of "take k m"]
    by (simp_all add: list_all_take min_def)
  have n: "dval (take (Suc k) n) = ?a + ?x * ?P" and m: "dval (take (Suc k) m) = ?b + ?y * ?P"
    using Suc.prems by (simp_all add: dval_take_Suc)
  have IH: "abs_gt_loop n m k \<longleftrightarrow> ?b < ?a"
    using Suc by simp
  consider "?x < ?y" | "?y < ?x" | "?x = ?y" by linarith
  then show ?case
  proof cases
    case 1
    then have "(?x + 1) * ?P \<le> ?y * ?P" by (intro mult_right_mono) auto
    then have "?a + ?x * ?P < ?b + ?y * ?P" using a b by (simp add: algebra_simps)
    then show ?thesis using 1 by (simp add: n m char_less_dig)
  next
    case 2
    then have "(?y + 1) * ?P \<le> ?x * ?P" by (intro mult_right_mono) auto
    then have "?b + ?y * ?P < ?a + ?x * ?P" using a b by (simp add: algebra_simps)
    then show ?thesis using 2 by (simp add: n m char_less_dig)
  next
    case 3
    then show ?thesis using IH by (simp add: n m char_less_dig)
  qed
qed

lemma digits_ok_pos_length: "digits_ok ds \<Longrightarrow> 0 < length ds"
  by (auto simp: digits_ok_def)

lemma abs_gt_iff:
  assumes "digits_ok (digits n)" "digits_ok (digits m)"
  shows "abs_gt n m \<longleftrightarrow> dval (digits m) < dval (digits n)"
proof -
  have a: "list_all digit_char (digits n)" "list_all digit_char (digits m)"
    using assms by (auto simp: digits_ok_def)
  consider "length (digits m) < length (digits n)" | "length (digits n) < length (digits m)"
    | "length (digits n) = length (digits m)" by linarith
  then show ?thesis
  proof cases
    case 1
    then have "\<not> dval (digits n) \<le> dval (digits m)"
      using digits_ok_length_le [OF assms] by auto
    then show ?thesis using 1 by (simp add: abs_gt_def)
  next
    case 2
    then have "\<not> dval (digits m) \<le> dval (digits n)"
      using digits_ok_length_le [OF assms(2,1)] by auto
    then show ?thesis using 2 by (simp add: abs_gt_def)
  next
    case 3
    then show ?thesis
      using abs_gt_loop_iff [OF a, of "length (digits n)"] by (simp add: abs_gt_def)
  qed
qed

subsection \<open>Validity and value of BigInts\<close>

lemma dval_zero_iff: "digits_ok ds \<Longrightarrow> dval ds = 0 \<longleftrightarrow> ds = ''0''"
  using digits_ok_unique [of ds "''0''"] by (auto simp: digits_ok_def)

lemma ha_int_validI:
  "digits_ok ds \<Longrightarrow> (\<not> s \<Longrightarrow> dval ds \<noteq> 0) \<Longrightarrow> ha_int_valid \<lparr>sign = s, digits = ds\<rparr>"
  by (auto simp: ha_int_valid_def)

lemma ha_int_valid_digits: "ha_int_valid n \<Longrightarrow> digits_ok (digits n)"
  by (simp add: ha_int_valid_def)

lemma ha_int_valid_dval: "ha_int_valid n \<Longrightarrow> 0 \<le> dval (digits n)"
  by (simp add: ha_int_valid_def digits_ok_def dval_nonneg)

lemma ha_int_valid_neg: "ha_int_valid n \<Longrightarrow> \<not> sign n \<Longrightarrow> 0 < dval (digits n)"
  using dval_zero_iff [of "digits n"] ha_int_valid_dval [of n]
  by (auto simp: ha_int_valid_def order_le_less)

lemma ha_int_value_sign: "ha_int_valid n \<Longrightarrow> sign n \<longleftrightarrow> 0 \<le> ha_int_value n"
  using ha_int_valid_dval [of n] ha_int_valid_neg [of n] by (auto simp: ha_int_value_def)

lemma ha_int_value_abs: "ha_int_valid n \<Longrightarrow> dval (digits n) = \<bar>ha_int_value n\<bar>"
  using ha_int_valid_dval [of n] by (auto simp: ha_int_value_def)

lemma ha_int_value_inj:
  assumes "ha_int_valid n" "ha_int_valid m" "ha_int_value n = ha_int_value m"
  shows "n = m"
proof -
  have "sign n = sign m"
    using assms by (simp add: ha_int_value_sign)
  moreover have "dval (digits n) = dval (digits m)"
    using assms by (simp add: ha_int_value_abs)
  then have "digits n = digits m"
    using assms(1,2) by (intro digits_ok_unique) (simp_all add: ha_int_valid_def)
  ultimately show ?thesis by simp
qed

lemma is_zero_iff: "ha_int_valid n \<Longrightarrow> is_zero n \<longleftrightarrow> ha_int_value n = 0"
proof -
  assume v: "ha_int_valid n"
  have "is_zero n \<longleftrightarrow> digits n = ''0''"
    by (cases "digits n") (auto simp: is_zero_def)
  also have "\<dots> \<longleftrightarrow> dval (digits n) = 0"
    using v by (simp add: dval_zero_iff ha_int_valid_def)
  finally show ?thesis by (auto simp: ha_int_value_def)
qed

lemma ha_int_gt_iff:
  assumes "ha_int_valid n" "ha_int_valid m"
  shows "ha_int_gt n m \<longleftrightarrow> ha_int_value m < ha_int_value n"
proof -
  have d: "digits_ok (digits n)" "digits_ok (digits m)"
    using assms by (simp_all add: ha_int_valid_def)
  note g = abs_gt_iff [OF d] abs_gt_iff [OF d(2,1)]
  show ?thesis
  proof (cases "sign n")
    case True
    then show ?thesis
      using g ha_int_valid_dval [OF assms(1)] ha_int_valid_neg [OF assms(2)]
      by (cases "sign m") (simp_all add: ha_int_gt_def ha_int_value_def)
  next
    case False
    then show ?thesis
      using g ha_int_valid_dval [OF assms(2)] ha_int_valid_neg [OF assms(1)]
      by (cases "sign m") (simp_all add: ha_int_gt_def ha_int_value_def)
  qed
qed

subsection \<open>Loops over an index range\<close>

lemma fold_upt_invariant:
  assumes "P 0 s" and "\<And>j t. j < n \<Longrightarrow> P j t \<Longrightarrow> P (Suc j) (f j t)"
  shows "P n (fold f [0..<n] s)"
  using assms(2)
proof (induction n)
  case 0
  show ?case using assms(1) by simp
next
  case (Suc n)
  have "P n (fold f [0..<n] s)"
    by (rule Suc.IH) (simp add: Suc.prems)
  then show ?case using Suc.prems [of n] by simp
qed

lemma sdiv_10_nonneg: "0 \<le> a \<Longrightarrow> a sdiv 10 = a div (10::int)"
  by (simp add: signed_divide_int_def sgn_if)

lemma smod_10_nonneg: "0 \<le> a \<Longrightarrow> a smod 10 = a mod (10::int)"
  by (simp add: signed_modulo_int_def sgn_if)

lemma get_digit_eq: "get_digit s (length s) j = (if j < length s then dig (s ! j) else 0)"
  by (simp add: get_digit_def dig_def)

lemma get_digit_range:
  "list_all digit_char s \<Longrightarrow> 0 \<le> get_digit s (length s) j \<and> get_digit s (length s) j \<le> 9"
  using dig_range [of "s ! j"] by (auto simp: get_digit_eq list_all_length)

lemma dval_take_get_digit:
  "dval (take (Suc j) s) = dval (take j s) + get_digit s (length s) j * 10 ^ j"
  by (cases "j < length s") (simp_all add: get_digit_eq dval_take_Suc)

lemma init_new_int_props [simp]:
  "length (init_new_int len) = len" "list_all digit_char (init_new_int len)"
  "dval (init_new_int len) = 0" "k < len \<Longrightarrow> init_new_int len ! k = CHR ''0''"
  by (simp_all add: init_new_int_def list_all_iff)

subsection \<open>Addition of magnitudes\<close>

lemma abs_add_step_inv:
  assumes N: "list_all digit_char (digits n)" and M: "list_all digit_char (digits m)"
    and j: "j < len"
    and len: "length ds = len" and dc: "list_all digit_char ds"
    and z: "\<forall>k. j \<le> k \<longrightarrow> k < len \<longrightarrow> ds ! k = CHR ''0''"
    and c: "0 \<le> c" "c \<le> 1"
    and v: "dval ds + c * 10 ^ j = dval (take j (digits n)) + dval (take j (digits m))"
    and step: "abs_add_step n m j (c, ds) = (c', ds')"
  shows "length ds' = len" "list_all digit_char ds'"
    "\<forall>k. Suc j \<le> k \<longrightarrow> k < len \<longrightarrow> ds' ! k = CHR ''0''"
    "0 \<le> c'" "c' \<le> 1"
    "dval ds' + c' * 10 ^ Suc j = dval (take (Suc j) (digits n)) + dval (take (Suc j) (digits m))"
proof -
  let ?gn = "get_digit (digits n) (length (digits n)) j"
  let ?gm = "get_digit (digits m) (length (digits m)) j"
  let ?P = "(10::int) ^ j"
  define sum where "sum = c + ?gm + ?gn"
  have g: "0 \<le> ?gn" "?gn \<le> 9" "0 \<le> ?gm" "?gm \<le> 9"
    using get_digit_range [OF N, of j] get_digit_range [OF M, of j] by simp_all
  have s: "0 \<le> sum" "sum \<le> 19"
    using g c by (simp_all add: sum_def)
  have c': "c' = sum div 10" and ds': "ds' = ds[j := to_char (sum mod 10)]"
    using step s by (simp_all add: abs_add_step_def sum_def [symmetric] Let_def
        sdiv_10_nonneg smod_10_nonneg)
  have d: "0 \<le> sum mod 10" "sum mod 10 \<le> 9"
    by simp_all
  show "length ds' = len" using len ds' by simp
  show "list_all digit_char ds'"
    unfolding ds' using dc d by (intro list_all_update to_char_digit)
  show "\<forall>k. Suc j \<le> k \<longrightarrow> k < len \<longrightarrow> ds' ! k = CHR ''0''"
    using z by (simp add: ds')
  show "0 \<le> c'" "c' \<le> 1" using s by (simp_all add: c')
  have "dval ds' = dval ds + (sum mod 10) * ?P"
    using j len z d by (simp add: ds' dval_update to_char_dig)
  moreover have "(sum mod 10) * ?P + (sum div 10) * (10 * ?P) = sum * ?P"
  proof -
    have "(sum mod 10 + 10 * (sum div 10)) * ?P = sum * ?P" by simp
    then show ?thesis by (simp only: algebra_simps)
  qed
  moreover have "sum * ?P = c * ?P + ?gm * ?P + ?gn * ?P"
    by (simp add: sum_def algebra_simps)
  ultimately show "dval ds' + c' * 10 ^ Suc j
      = dval (take (Suc j) (digits n)) + dval (take (Suc j) (digits m))"
    using v by (simp add: dval_take_get_digit c')
qed

lemma abs_add_fold:
  assumes N: "list_all digit_char (digits n)" and M: "list_all digit_char (digits m)"
    and st: "fold (abs_add_step n m) [0..<len] (0, init_new_int len) = (c, ds)"
  shows "length ds = len \<and> list_all digit_char ds \<and> 0 \<le> c \<and> c \<le> 1
    \<and> dval ds + c * 10 ^ len = dval (take len (digits n)) + dval (take len (digits m))"
proof -
  let ?I = "\<lambda>j st. length (snd st) = len \<and> list_all digit_char (snd st)
      \<and> (\<forall>k. j \<le> k \<longrightarrow> k < len \<longrightarrow> snd st ! k = CHR ''0'')
      \<and> 0 \<le> fst st \<and> fst st \<le> 1
      \<and> dval (snd st) + fst st * 10 ^ j = dval (take j (digits n)) + dval (take j (digits m))"
  have "?I len (fold (abs_add_step n m) [0..<len] (0, init_new_int len))"
  proof (rule fold_upt_invariant [where P = ?I])
    show "?I 0 (0, init_new_int len)" by simp
  next
    fix j t
    assume j: "j < len" and I: "?I j t"
    obtain c0 ds0 where t: "t = (c0, ds0)" by (cases t)
    obtain c1 ds1 where s: "abs_add_step n m j (c0, ds0) = (c1, ds1)"
      by (cases "abs_add_step n m j (c0, ds0)")
    from I have i: "length ds0 = len" "list_all digit_char ds0"
      "\<forall>k. j \<le> k \<longrightarrow> k < len \<longrightarrow> ds0 ! k = CHR ''0''" "0 \<le> c0" "c0 \<le> 1"
      "dval ds0 + c0 * 10 ^ j = dval (take j (digits n)) + dval (take j (digits m))"
      by (simp_all add: t)
    show "?I (Suc j) (abs_add_step n m j t)"
      unfolding t s using abs_add_step_inv [OF N M j i s] by simp
  qed
  then show ?thesis by (simp add: st)
qed

lemma abs_add_correct:
  assumes N: "list_all digit_char (digits n)" and M: "list_all digit_char (digits m)"
  shows "sign (abs_add n m)" "digits_ok (digits (abs_add n m))"
    "dval (digits (abs_add n m)) = dval (digits n) + dval (digits m)"
proof -
  define len where "len = max (length (digits n)) (length (digits m)) + 1"
  obtain c ds where st: "fold (abs_add_step n m) [0..<len] (0, init_new_int len) = (c, ds)"
    by (cases "fold (abs_add_step n m) [0..<len] (0, init_new_int len)")
  have r: "abs_add n m = \<lparr>sign = True, digits = remove_leading_zeros ds\<rparr>"
    using st by (simp add: abs_add_def len_def Let_def)
  from abs_add_fold [OF N M st]
  have l: "length ds = len" and dc: "list_all digit_char ds" and c: "0 \<le> c" "c \<le> 1"
    and v: "dval ds + c * 10 ^ len = dval (digits n) + dval (digits m)"
    by (simp_all add: len_def)
  show "sign (abs_add n m)" by (simp add: r)
  have "ds \<noteq> []" using l by (auto simp: len_def)
  then show "digits_ok (digits (abs_add n m))"
    using dc by (simp add: r digits_ok_remove_leading_zeros)
  have "dval (digits n) < 10 ^ length (digits n)" "dval (digits m) < 10 ^ length (digits m)"
    using N M by (simp_all add: dval_less)
  moreover have "(10::int) ^ length (digits n) \<le> 10 ^ (len - 1)"
    "(10::int) ^ length (digits m) \<le> 10 ^ (len - 1)"
    by (simp_all add: len_def)
  moreover have "(10::int) ^ len = 10 * 10 ^ (len - 1)"
    by (simp add: len_def)
  moreover have "(0::int) < 10 ^ (len - 1)"
    by simp
  ultimately have "dval (digits n) + dval (digits m) < 10 ^ len"
    by linarith
  moreover have "0 \<le> dval ds" using dc by (rule dval_nonneg)
  ultimately have "c = 0"
    using v c by (cases "c = 1") auto
  then show "dval (digits (abs_add n m)) = dval (digits n) + dval (digits m)"
    using v by (simp add: r)
qed


subsection \<open>Subtraction of magnitudes\<close>

lemma sub_step_inv:
  assumes B: "list_all digit_char big" and S: "list_all digit_char small"
    and j: "j < len"
    and len: "length ds = len" and dc: "list_all digit_char ds"
    and z: "\<forall>k. j \<le> k \<longrightarrow> k < len \<longrightarrow> ds ! k = CHR ''0''"
    and c: "- 1 \<le> c" "c \<le> 0"
    and v: "dval ds = dval (take j big) - dval (take j small) - c * 10 ^ j"
    and step: "sub_step big small j (c, ds) = (c', ds')"
  shows "length ds' = len" "list_all digit_char ds'"
    "\<forall>k. Suc j \<le> k \<longrightarrow> k < len \<longrightarrow> ds' ! k = CHR ''0''"
    "- 1 \<le> c'" "c' \<le> 0"
    "dval ds' = dval (take (Suc j) big) - dval (take (Suc j) small) - c' * 10 ^ Suc j"
proof -
  let ?gb = "get_digit big (length big) j"
  let ?gs = "get_digit small (length small) j"
  let ?P = "(10::int) ^ j"
  define sub where "sub = c + ?gb - ?gs"
  define sub' where "sub' = (if sub < 0 then sub + 10 else sub)"
  have g: "0 \<le> ?gb" "?gb \<le> 9" "0 \<le> ?gs" "?gs \<le> 9"
    using get_digit_range [OF B, of j] get_digit_range [OF S, of j] by simp_all
  have s: "- 10 \<le> sub" "sub \<le> 9"
    using g c by (simp_all add: sub_def)
  have s': "0 \<le> sub'" "sub' \<le> 9"
    using s by (simp_all add: sub'_def)
  have "sub' smod 10 = sub'"
    using s' by (simp add: smod_10_nonneg)
  moreover have "c' = (if sub < 0 then - 1 else 0)" "ds' = ds[j := to_char (sub' smod 10)]"
    using step by (auto simp: sub_step_def sub_def sub'_def Let_def)
  ultimately have c': "c' = (if sub < 0 then - 1 else 0)" and ds': "ds' = ds[j := to_char sub']"
    by simp_all
  show "length ds' = len" using len ds' by simp
  show "list_all digit_char ds'"
    unfolding ds' using dc s' by (intro list_all_update to_char_digit)
  show "\<forall>k. Suc j \<le> k \<longrightarrow> k < len \<longrightarrow> ds' ! k = CHR ''0''"
    using z by (simp add: ds')
  show "- 1 \<le> c'" "c' \<le> 0" by (simp_all add: c')
  have "dval ds' = dval ds + sub' * ?P"
    using j len z s' by (simp add: ds' dval_update to_char_dig)
  moreover have "sub' = c + ?gb - ?gs - 10 * c'"
    by (simp add: sub'_def c' sub_def)
  then have "sub' * ?P = (c + ?gb - ?gs - 10 * c') * ?P"
    by (simp only:)
  then have "sub' * ?P = c * ?P + ?gb * ?P - ?gs * ?P - c' * (10 * ?P)"
    by (simp add: algebra_simps)
  ultimately show "dval ds' = dval (take (Suc j) big) - dval (take (Suc j) small) - c' * 10 ^ Suc j"
    using v by (simp add: dval_take_get_digit)
qed

lemma sub_fold:
  assumes B: "list_all digit_char big" and S: "list_all digit_char small"
    and st: "fold (sub_step big small) [0..<len] (0, init_new_int len) = (c, ds)"
  shows "length ds = len \<and> list_all digit_char ds \<and> - 1 \<le> c \<and> c \<le> 0
    \<and> dval ds = dval (take len big) - dval (take len small) - c * 10 ^ len"
proof -
  let ?I = "\<lambda>j st. length (snd st) = len \<and> list_all digit_char (snd st)
      \<and> (\<forall>k. j \<le> k \<longrightarrow> k < len \<longrightarrow> snd st ! k = CHR ''0'')
      \<and> - 1 \<le> fst st \<and> fst st \<le> 0
      \<and> dval (snd st) = dval (take j big) - dval (take j small) - fst st * 10 ^ j"
  have "?I len (fold (sub_step big small) [0..<len] (0, init_new_int len))"
  proof (rule fold_upt_invariant [where P = ?I])
    show "?I 0 (0, init_new_int len)" by simp
  next
    fix j t
    assume j: "j < len" and I: "?I j t"
    obtain c0 ds0 where t: "t = (c0, ds0)" by (cases t)
    obtain c1 ds1 where s: "sub_step big small j (c0, ds0) = (c1, ds1)"
      by (cases "sub_step big small j (c0, ds0)")
    from I have i: "length ds0 = len" "list_all digit_char ds0"
      "\<forall>k. j \<le> k \<longrightarrow> k < len \<longrightarrow> ds0 ! k = CHR ''0''" "- 1 \<le> c0" "c0 \<le> 0"
      "dval ds0 = dval (take j big) - dval (take j small) - c0 * 10 ^ j"
      by (simp_all add: t)
    show "?I (Suc j) (sub_step big small j t)"
      unfolding t s using sub_step_inv [OF B S j i s] by simp
  qed
  then show ?thesis by (simp add: st)
qed

lemma abs_big_sub_small_correct:
  assumes N: "digits_ok (digits n)" and M: "digits_ok (digits m)"
  shows "sign (abs_big_sub_small n m)" "digits_ok (digits (abs_big_sub_small n m))"
    "dval (digits (abs_big_sub_small n m)) = \<bar>dval (digits n) - dval (digits m)\<bar>"
proof -
  define len where "len = max (length (digits n)) (length (digits m))"
  define big where "big = (if abs_gt n m then digits n else digits m)"
  define small where "small = (if abs_gt n m then digits m else digits n)"
  obtain c ds where st: "fold (sub_step big small) [0..<len] (0, init_new_int len) = (c, ds)"
    by (cases "fold (sub_step big small) [0..<len] (0, init_new_int len)")
  have r: "abs_big_sub_small n m = \<lparr>sign = True, digits = remove_leading_zeros ds\<rparr>"
    using st by (simp add: abs_big_sub_small_def len_def big_def small_def Let_def)
  have B: "list_all digit_char big" and S: "list_all digit_char small"
    using N M by (simp_all add: big_def small_def digits_ok_def)
  have lb: "length big \<le> len" and ls: "length small \<le> len"
    by (simp_all add: big_def small_def len_def)
  from sub_fold [OF B S st]
  have l: "length ds = len" and dc: "list_all digit_char ds" and c: "- 1 \<le> c" "c \<le> 0"
    and v: "dval ds = dval big - dval small - c * 10 ^ len"
    using lb ls by simp_all
  have bs: "dval small \<le> dval big" "dval big - dval small = \<bar>dval (digits n) - dval (digits m)\<bar>"
    using abs_gt_iff [OF N M] by (auto simp: big_def small_def)
  show "sign (abs_big_sub_small n m)" by (simp add: r)
  have "0 < len" using N by (cases "digits n") (auto simp: len_def digits_ok_def)
  then have "ds \<noteq> []" using l by auto
  then show "digits_ok (digits (abs_big_sub_small n m))"
    using dc by (simp add: r digits_ok_remove_leading_zeros)
  have "dval ds < 10 ^ len" using dc l dval_less [of ds] by simp
  moreover have "c = 0 \<or> c = - 1"
    using c by linarith
  ultimately have "c = 0"
    using v bs(1) by auto
  then show "dval (digits (abs_big_sub_small n m)) = \<bar>dval (digits n) - dval (digits m)\<bar>"
    using v bs(2) by (simp add: r)
qed

subsection \<open>Signed addition and subtraction\<close>

lemma ha_int_valid_iff:
  "ha_int_valid x \<longleftrightarrow> digits_ok (digits x) \<and> (\<not> sign x \<longrightarrow> dval (digits x) \<noteq> 0)"
  using dval_zero_iff [of "digits x"] by (auto simp: ha_int_valid_def)

lemma ha_int_add_correct:
  assumes n: "ha_int_valid n" and m: "ha_int_valid m"
  shows "ha_int_valid (ha_int_add n m)"
    and "ha_int_value (ha_int_add n m) = ha_int_value n + ha_int_value m"
proof -
  have d: "digits_ok (digits n)" "digits_ok (digits m)"
    using n m by (simp_all add: ha_int_valid_def)
  then have a: "list_all digit_char (digits n)" "list_all digit_char (digits m)"
    by (simp_all add: digits_ok_def)
  note add = abs_add_correct [OF a]
  note sub = abs_big_sub_small_correct [OF d]
  note gt = abs_gt_iff [OF d] abs_gt_iff [OF d(2,1)]
  note pos = ha_int_valid_dval [OF n] ha_int_valid_dval [OF m]
  have neg: "\<not> sign n \<Longrightarrow> 0 < dval (digits n)" "\<not> sign m \<Longrightarrow> 0 < dval (digits m)"
    using n m by (simp_all add: ha_int_valid_neg)
  have "ha_int_valid (ha_int_add n m)
      \<and> ha_int_value (ha_int_add n m) = ha_int_value n + ha_int_value m"
  proof (cases "sign n = sign m")
    case True
    then show ?thesis
      using add pos neg by (cases "sign n") (simp_all add: ha_int_add_def ha_int_valid_iff ha_int_value_def)
  next
    case False
    consider "dval (digits m) < dval (digits n)" | "dval (digits n) < dval (digits m)"
      | "dval (digits n) = dval (digits m)" by linarith
    then show ?thesis
    proof cases
      case 1
      then show ?thesis
        using False sub gt
        by (cases "sign n") (simp_all add: ha_int_add_def ha_int_valid_iff ha_int_value_def Let_def)
    next
      case 2
      then show ?thesis
        using False sub gt
        by (cases "sign n") (simp_all add: ha_int_add_def ha_int_valid_iff ha_int_value_def Let_def)
    next
      case 3
      then show ?thesis
        using False sub gt
        by (cases "sign n") (simp_all add: ha_int_add_def ha_int_valid_iff ha_int_value_def Let_def)
    qed
  qed
  then show "ha_int_valid (ha_int_add n m)"
    and "ha_int_value (ha_int_add n m) = ha_int_value n + ha_int_value m"
    by simp_all
qed

lemma ha_int_sub_correct:
  assumes n: "ha_int_valid n" and m: "ha_int_valid m"
  shows "ha_int_valid (ha_int_sub n m)"
    and "ha_int_value (ha_int_sub n m) = ha_int_value n - ha_int_value m"
proof -
  have d: "digits_ok (digits n)" "digits_ok (digits m)"
    using n m by (simp_all add: ha_int_valid_def)
  then have a: "list_all digit_char (digits n)" "list_all digit_char (digits m)"
    by (simp_all add: digits_ok_def)
  note add = abs_add_correct [OF a]
  note sub = abs_big_sub_small_correct [OF d]
  note gt = abs_gt_iff [OF d] abs_gt_iff [OF d(2,1)]
  note pos = ha_int_valid_dval [OF n] ha_int_valid_dval [OF m]
  have neg: "\<not> sign n \<Longrightarrow> 0 < dval (digits n)" "\<not> sign m \<Longrightarrow> 0 < dval (digits m)"
    using n m by (simp_all add: ha_int_valid_neg)
  have "ha_int_valid (ha_int_sub n m)
      \<and> ha_int_value (ha_int_sub n m) = ha_int_value n - ha_int_value m"
  proof (cases "sign n = sign m")
    case False
    then show ?thesis
      using add pos neg by (cases "sign n") (simp_all add: ha_int_sub_def ha_int_valid_iff ha_int_value_def)
  next
    case True
    consider "dval (digits m) < dval (digits n)" | "dval (digits n) < dval (digits m)"
      | "dval (digits n) = dval (digits m)" by linarith
    then show ?thesis
    proof cases
      case 1
      then show ?thesis
        using True sub gt
        by (cases "sign n") (simp_all add: ha_int_sub_def ha_int_valid_iff ha_int_value_def Let_def)
    next
      case 2
      then show ?thesis
        using True sub gt
        by (cases "sign n") (simp_all add: ha_int_sub_def ha_int_valid_iff ha_int_value_def Let_def)
    next
      case 3
      then show ?thesis
        using True sub gt
        by (cases "sign n") (simp_all add: ha_int_sub_def ha_int_valid_iff ha_int_value_def Let_def)
    qed
  qed
  then show "ha_int_valid (ha_int_sub n m)"
    and "ha_int_value (ha_int_sub n m) = ha_int_value n - ha_int_value m"
    by simp_all
qed

subsection \<open>Multiplication\<close>

lemma mult_inner_inv:
  assumes N: "list_all digit_char (digits n)" and M: "list_all digit_char (digits m)"
    and i: "i < length (digits n)" and j: "j < length (digits m)"
    and len: "length ds = length (digits n) + length (digits m)"
    and dc: "list_all digit_char ds"
    and z: "\<forall>k. i + length (digits m) \<le> k \<longrightarrow> k < length ds \<longrightarrow> ds ! k = CHR ''0''"
    and c: "0 \<le> c" "c \<le> 9"
    and v: "dval ds + c * 10 ^ (i + j) = A + dig (digits n ! i) * 10 ^ i * dval (take j (digits m))"
    and step: "mult_inner n m i j (c, ds) = (c', ds')"
  shows "length ds' = length (digits n) + length (digits m)" "list_all digit_char ds'"
    "\<forall>k. i + length (digits m) \<le> k \<longrightarrow> k < length ds' \<longrightarrow> ds' ! k = CHR ''0''"
    "0 \<le> c'" "c' \<le> 9"
    "dval ds' + c' * 10 ^ (i + Suc j)
      = A + dig (digits n ! i) * 10 ^ i * dval (take (Suc j) (digits m))"
proof -
  let ?gn = "dig (digits n ! i)" and ?gm = "dig (digits m ! j)" and ?old = "dig (ds ! (i + j))"
  let ?P = "(10::int) ^ (i + j)"
  define mult where "mult = ?gn * ?gm + ?old + c"
  have ij: "i + j < length ds" using i j len by simp
  have gn: "0 \<le> ?gn" "?gn \<le> 9" and gm: "0 \<le> ?gm" "?gm \<le> 9" and old: "0 \<le> ?old" "?old \<le> 9"
    using N M dc i j ij dig_range by (auto simp: list_all_length)
  have "?gn * ?gm \<le> 9 * 9"
    using gn gm by (intro mult_mono) auto
  moreover have "0 \<le> ?gn * ?gm"
    using gn gm by simp
  ultimately have mu: "0 \<le> mult" "mult \<le> 99"
    using old c by (simp_all add: mult_def)
  have gd: "get_digit (digits n) (length (digits n)) i = ?gn"
    "get_digit (digits m) (length (digits m)) j = ?gm"
    "get_digit ds (length (digits n) + length (digits m)) (i + j) = ?old"
    using i j by (simp_all add: get_digit_def dig_def)
  have "mult_inner n m i j (c, ds) = (mult sdiv 10, ds[i + j := to_char (mult smod 10)])"
    by (simp add: mult_inner_def gd mult_def Let_def)
  then have c': "c' = mult div 10" and ds': "ds' = ds[i + j := to_char (mult mod 10)]"
    using step mu by (simp_all add: sdiv_10_nonneg smod_10_nonneg)
  have d: "0 \<le> mult mod 10" "mult mod 10 \<le> 9"
    by simp_all
  show "length ds' = length (digits n) + length (digits m)" using len ds' by simp
  show "list_all digit_char ds'"
    unfolding ds' using dc d by (intro list_all_update to_char_digit)
  show "\<forall>k. i + length (digits m) \<le> k \<longrightarrow> k < length ds' \<longrightarrow> ds' ! k = CHR ''0''"
    using z j by (simp add: ds')
  show "0 \<le> c'" "c' \<le> 9" using mu by (simp_all add: c')
  have "dval ds' = dval ds + (mult mod 10 - ?old) * ?P"
    using ij d by (simp add: ds' dval_update to_char_dig)
  moreover have "(mult mod 10) * ?P + (mult div 10) * (10 * ?P) = mult * ?P"
  proof -
    have "(mult mod 10 + 10 * (mult div 10)) * ?P = mult * ?P" by simp
    then show ?thesis by (simp only: algebra_simps)
  qed
  moreover have "mult * ?P = ?gn * ?gm * ?P + ?old * ?P + c * ?P"
    by (simp add: mult_def algebra_simps)
  moreover have "?gn * 10 ^ i * dval (take (Suc j) (digits m))
      = ?gn * 10 ^ i * dval (take j (digits m)) + ?gn * ?gm * ?P"
    using j by (simp add: dval_take_Suc algebra_simps power_add)
  ultimately show "dval ds' + c' * 10 ^ (i + Suc j)
      = A + ?gn * 10 ^ i * dval (take (Suc j) (digits m))"
    using v by (simp add: c' algebra_simps)
qed

lemma mult_outer_inv:
  assumes N: "list_all digit_char (digits n)" and M: "list_all digit_char (digits m)"
    and i: "i < length (digits n)"
    and len: "length ds = length (digits n) + length (digits m)"
    and dc: "list_all digit_char ds"
    and z: "\<forall>k. i + length (digits m) \<le> k \<longrightarrow> k < length ds \<longrightarrow> ds ! k = CHR ''0''"
    and v: "dval ds = dval (take i (digits n)) * dval (digits m)"
  shows "length (mult_outer n m i ds) = length (digits n) + length (digits m)"
    "list_all digit_char (mult_outer n m i ds)"
    "\<forall>k. Suc i + length (digits m) \<le> k \<longrightarrow> k < length (mult_outer n m i ds)
        \<longrightarrow> mult_outer n m i ds ! k = CHR ''0''"
    "dval (mult_outer n m i ds) = dval (take (Suc i) (digits n)) * dval (digits m)"
proof -
  let ?ml = "length (digits m)"
  let ?gn = "dig (digits n ! i)"
  let ?I = "\<lambda>j st. length (snd st) = length (digits n) + ?ml \<and> list_all digit_char (snd st)
      \<and> (\<forall>k. i + ?ml \<le> k \<longrightarrow> k < length (snd st) \<longrightarrow> snd st ! k = CHR ''0'')
      \<and> 0 \<le> fst st \<and> fst st \<le> 9
      \<and> dval (snd st) + fst st * 10 ^ (i + j)
          = dval ds + ?gn * 10 ^ i * dval (take j (digits m))"
  obtain c1 ds1 where st: "fold (mult_inner n m i) [0..<?ml] (0, ds) = (c1, ds1)"
    by (cases "fold (mult_inner n m i) [0..<?ml] (0, ds)")
  have "?I ?ml (fold (mult_inner n m i) [0..<?ml] (0, ds))"
  proof (rule fold_upt_invariant [where P = ?I])
    show "?I 0 (0, ds)" using len dc z by simp
  next
    fix j t
    assume j: "j < ?ml" and I: "?I j t"
    obtain c0 ds0 where t: "t = (c0, ds0)" by (cases t)
    obtain c2 ds2 where s: "mult_inner n m i j (c0, ds0) = (c2, ds2)"
      by (cases "mult_inner n m i j (c0, ds0)")
    from I have a: "length ds0 = length (digits n) + ?ml" "list_all digit_char ds0"
      "\<forall>k. i + ?ml \<le> k \<longrightarrow> k < length ds0 \<longrightarrow> ds0 ! k = CHR ''0''" "0 \<le> c0" "c0 \<le> 9"
      "dval ds0 + c0 * 10 ^ (i + j) = dval ds + ?gn * 10 ^ i * dval (take j (digits m))"
      by (simp_all add: t)
    show "?I (Suc j) (mult_inner n m i j t)"
      unfolding t s using mult_inner_inv [OF N M i j a s] by simp
  qed
  then have a: "length ds1 = length (digits n) + ?ml" "list_all digit_char ds1"
    "\<forall>k. i + ?ml \<le> k \<longrightarrow> k < length ds1 \<longrightarrow> ds1 ! k = CHR ''0''" "0 \<le> c1" "c1 \<le> 9"
    "dval ds1 + c1 * 10 ^ (i + ?ml) = dval ds + ?gn * 10 ^ i * dval (digits m)"
    by (simp_all add: st)
  have r: "mult_outer n m i ds = ds1[?ml + i := to_char c1]"
    by (simp add: mult_outer_def st Let_def)
  have p: "?ml + i < length ds1" using a(1) i by simp
  show "length (mult_outer n m i ds) = length (digits n) + ?ml"
    using a(1) by (simp add: r)
  show "list_all digit_char (mult_outer n m i ds)"
    unfolding r using a(2,4,5) by (intro list_all_update to_char_digit)
  show "\<forall>k. Suc i + ?ml \<le> k \<longrightarrow> k < length (mult_outer n m i ds)
        \<longrightarrow> mult_outer n m i ds ! k = CHR ''0''"
    using a(3) by (simp add: r)
  have "ds1 ! (?ml + i) = CHR ''0''"
    using a(3) p by (simp add: add.commute)
  then have "dval (mult_outer n m i ds) = dval ds1 + c1 * 10 ^ (?ml + i)"
    using p a(4,5) by (simp add: r dval_update to_char_dig)
  then show "dval (mult_outer n m i ds) = dval (take (Suc i) (digits n)) * dval (digits m)"
    using a(6) v i by (simp add: dval_take_Suc algebra_simps)
qed

lemma mult_fold:
  assumes N: "list_all digit_char (digits n)" and M: "list_all digit_char (digits m)"
  shows "length (fold (mult_outer n m) [0..<length (digits n)]
            (init_new_int (length (digits n) + length (digits m))))
          = length (digits n) + length (digits m)
    \<and> list_all digit_char (fold (mult_outer n m) [0..<length (digits n)]
            (init_new_int (length (digits n) + length (digits m))))
    \<and> dval (fold (mult_outer n m) [0..<length (digits n)]
            (init_new_int (length (digits n) + length (digits m))))
          = dval (digits n) * dval (digits m)"
proof -
  let ?L = "length (digits n) + length (digits m)"
  let ?I = "\<lambda>i ds. length ds = ?L \<and> list_all digit_char ds
      \<and> (\<forall>k. i + length (digits m) \<le> k \<longrightarrow> k < length ds \<longrightarrow> ds ! k = CHR ''0'')
      \<and> dval ds = dval (take i (digits n)) * dval (digits m)"
  have "?I (length (digits n)) (fold (mult_outer n m) [0..<length (digits n)] (init_new_int ?L))"
  proof (rule fold_upt_invariant [where P = ?I])
    show "?I 0 (init_new_int ?L)" by simp
  next
    fix i t
    assume i: "i < length (digits n)" and I: "?I i t"
    then show "?I (Suc i) (mult_outer n m i t)"
      using mult_outer_inv [OF N M i, of t] by simp
  qed
  then show ?thesis by simp
qed

lemma mult_div_sign_iff:
  assumes "ha_int_valid n" "ha_int_valid m"
  shows "mult_div_sign n m \<longleftrightarrow> ha_int_value n = 0 \<or> ha_int_value m = 0 \<or> sign n = sign m"
  using assms by (simp add: mult_div_sign_def is_zero_iff)

lemma ha_int_mult_correct:
  assumes n: "ha_int_valid n" and m: "ha_int_valid m"
  shows "ha_int_valid (ha_int_mult n m)"
    and "ha_int_value (ha_int_mult n m) = ha_int_value n * ha_int_value m"
proof -
  let ?ds = "fold (mult_outer n m) [0..<length (digits n)]
      (init_new_int (length (digits n) + length (digits m)))"
  have d: "digits_ok (digits n)" "digits_ok (digits m)"
    using n m by (simp_all add: ha_int_valid_def)
  then have a: "list_all digit_char (digits n)" "list_all digit_char (digits m)"
    by (simp_all add: digits_ok_def)
  from mult_fold [OF a] have l: "length ?ds = length (digits n) + length (digits m)"
    and dc: "list_all digit_char ?ds" and v: "dval ?ds = dval (digits n) * dval (digits m)"
    by simp_all
  have r: "ha_int_mult n m = \<lparr>sign = mult_div_sign n m, digits = remove_leading_zeros ?ds\<rparr>"
    by (simp add: ha_int_mult_def Let_def)
  have "?ds \<noteq> []"
    using l d(1) by (cases "digits n") (auto simp: digits_ok_def)
  then have ok: "digits_ok (remove_leading_zeros ?ds)"
    using dc by (rule digits_ok_remove_leading_zeros)
  have vn: "ha_int_value n = (if sign n then dval (digits n) else - dval (digits n))"
    and vm: "ha_int_value m = (if sign m then dval (digits m) else - dval (digits m))"
    by (simp_all add: ha_int_value_def)
  have s: "mult_div_sign n m \<longleftrightarrow> dval (digits n) = 0 \<or> dval (digits m) = 0 \<or> sign n = sign m"
    using mult_div_sign_iff [OF n m] by (auto simp: vn vm)
  show "ha_int_valid (ha_int_mult n m)"
    unfolding r ha_int_valid_iff using ok s v by simp
  show "ha_int_value (ha_int_mult n m) = ha_int_value n * ha_int_value m"
    unfolding r using s v by (auto simp: ha_int_value_def)
qed

subsection \<open>Long division\<close>

lemma sub_loop_correct:
  assumes md: "ha_int_valid md" "sign md" "0 < ha_int_value md"
    and d: "ha_int_valid d" "sign d"
  shows "\<exists>d'. sub_loop md d q = Some (d', q + ha_int_value d div ha_int_value md)
      \<and> ha_int_valid d' \<and> sign d' \<and> ha_int_value d' = ha_int_value d mod ha_int_value md"
  using d
proof (induction "nat (ha_int_value d)" arbitrary: d q rule: less_induct)
  case less
  let ?vd = "ha_int_value d" and ?vm = "ha_int_value md"
  have vd: "0 \<le> ?vd"
    using less.prems by (simp add: ha_int_value_sign)
  have gt: "abs_gt md d \<longleftrightarrow> ?vd < ?vm"
    using abs_gt_iff [of md d] md less.prems by (simp add: ha_int_valid_def ha_int_value_def)
  show ?case
  proof (cases "?vd < ?vm")
    case True
    then have "sub_loop md d q = Some (d, q)"
      using gt by (subst sub_loop.simps) simp
    then show ?thesis
      using True vd less.prems by (simp add: div_pos_pos_trivial mod_pos_pos_trivial)
  next
    case False
    let ?d2 = "ha_int_sub d md"
    have v2: "ha_int_valid ?d2" and e2: "ha_int_value ?d2 = ?vd - ?vm"
      using ha_int_sub_correct [OF less.prems(1) md(1)] by simp_all
    have s2: "sign ?d2"
      using False v2 e2 by (simp add: ha_int_value_sign)
    have "nat (ha_int_value ?d2) < nat ?vd"
      using False md(3) e2 by simp
    from less.hyps [OF this v2 s2, of "q + 1"]
    obtain d' where d': "sub_loop md ?d2 (q + 1) = Some (d', q + 1 + (?vd - ?vm) div ?vm)"
      "ha_int_valid d'" "sign d'" "ha_int_value d' = (?vd - ?vm) mod ?vm"
      by (auto simp: e2)
    have "(?vd - ?vm + ?vm) div ?vm = (?vd - ?vm) div ?vm + 1"
      using md(3) by (subst div_add_self2) simp_all
    then have dv: "q + 1 + (?vd - ?vm) div ?vm = q + ?vd div ?vm"
      by simp
    have "sub_loop md d q = sub_loop md ?d2 (q + 1)"
      using gt False by (subst sub_loop.simps) simp
    then show ?thesis
      using d' dv by simp
  qed
qed

lemma swap_fold:
  assumes "idx \<le> length ds"
  shows "fold (swap_step idx) [0..<idx div 2] ds = rev (take idx ds) @ drop idx ds"
proof -
  let ?I = "\<lambda>k t. length t = length ds
      \<and> (\<forall>j < length ds. t ! j = (if j < k \<or> (idx - k \<le> j \<and> j < idx) then ds ! (idx - 1 - j) else ds ! j))"
  let ?t = "fold (swap_step idx) [0..<idx div 2] ds"
  have "?I (idx div 2) ?t"
  proof (rule fold_upt_invariant [where P = ?I])
    show "?I 0 ds" by auto
  next
    fix k t
    assume k: "k < idx div 2" and I: "?I k t"
    then have l: "length t = length ds"
      and t: "\<And>j. j < length ds \<Longrightarrow>
          t ! j = (if j < k \<or> (idx - k \<le> j \<and> j < idx) then ds ! (idx - 1 - j) else ds ! j)"
      by simp_all
    have kk: "k < idx - 1 - k" "idx - 1 - k < idx" "idx - 1 - k < length ds" "k < length ds"
      using k assms by simp_all
    have tk: "t ! k = ds ! k" and tk': "t ! (idx - 1 - k) = ds ! (idx - 1 - k)"
      using t [of k] t [of "idx - 1 - k"] kk by auto
    have r: "swap_step idx k t = (t[k := ds ! (idx - 1 - k)])[idx - 1 - k := ds ! k]"
      using tk tk' by (simp add: swap_step_def Let_def)
    show "?I (Suc k) (swap_step idx k t)"
    proof (intro conjI allI impI)
      show "length (swap_step idx k t) = length ds" by (simp add: r l)
    next
      fix j assume j: "j < length ds"
      consider "j = k" | "j = idx - 1 - k" | "j \<noteq> k" "j \<noteq> idx - 1 - k" by blast
      then show "swap_step idx k t ! j
          = (if j < Suc k \<or> (idx - Suc k \<le> j \<and> j < idx) then ds ! (idx - 1 - j) else ds ! j)"
      proof cases
        case 1
        then show ?thesis using kk l by (simp add: r)
      next
        case 2
        then show ?thesis using kk l by (auto simp: r)
      next
        case 3
        then have "swap_step idx k t ! j = t ! j" by (simp add: r)
        also have "\<dots> = (if j < k \<or> (idx - k \<le> j \<and> j < idx) then ds ! (idx - 1 - j) else ds ! j)"
          using t [OF j] .
        also have "\<dots> = (if j < Suc k \<or> (idx - Suc k \<le> j \<and> j < idx) then ds ! (idx - 1 - j) else ds ! j)"
          using 3 kk by auto
        finally show ?thesis .
      qed
    qed
  qed
  then have l: "length ?t = length ds"
    and t: "\<And>j. j < length ds \<Longrightarrow>
        ?t ! j = (if j < idx div 2 \<or> (idx - idx div 2 \<le> j \<and> j < idx) then ds ! (idx - 1 - j) else ds ! j)"
    by simp_all
  show ?thesis
  proof (rule nth_equalityI)
    show "length ?t = length (rev (take idx ds) @ drop idx ds)"
      using l assms by simp
  next
    fix j assume "j < length ?t"
    then have j: "j < length ds" using l by simp
    show "?t ! j = (rev (take idx ds) @ drop idx ds) ! j"
    proof (cases "j < idx")
      case True
      then have "(rev (take idx ds) @ drop idx ds) ! j = ds ! (idx - 1 - j)"
        using assms by (simp add: nth_append rev_nth)
      moreover have "?t ! j = ds ! (idx - 1 - j)"
      proof (cases "j < idx div 2 \<or> idx - idx div 2 \<le> j")
        case True
        then show ?thesis using t [OF j] \<open>j < idx\<close> by auto
      next
        case False
        then have "idx - 1 - j = j" using \<open>j < idx\<close> by auto
        then show ?thesis using t [OF j] False by auto
      qed
      ultimately show ?thesis by simp
    next
      case False
      then have "(rev (take idx ds) @ drop idx ds) ! j = ds ! j"
        using assms j by (simp add: nth_append)
      then show ?thesis using t [OF j] False by auto
    qed
  qed
qed

lemma ten_to_power_create:
  "ha_int_create (CHR ''1'' # replicate k CHR ''0'')
    = Inr \<lparr>sign = True, digits = replicate k CHR ''0'' @ ''1''\<rparr>"
proof -
  have "valid_decimal (CHR ''1'' # replicate k CHR ''0'')"
    by (simp add: valid_decimal_def list_all_iff digit_char_iff)
  then show ?thesis
    by (simp add: ha_int_create_eq)
qed

lemma ten_to_power_valid:
  "ha_int_valid \<lparr>sign = True, digits = replicate k CHR ''0'' @ ''1''\<rparr>"
  "ha_int_value \<lparr>sign = True, digits = replicate k CHR ''0'' @ ''1''\<rparr> = 10 ^ k"
  by (simp_all add: ha_int_valid_def digits_ok_def ha_int_value_def dval_append list_all_iff
      digit_char_iff dig_def)


lemma div_split:
  fixes R M P :: int
  assumes "M \<noteq> 0"
  shows "R div M = (R div (M * P)) * P + (R mod (M * P)) div M"
proof -
  have "R = R mod (M * P) + (M * P) * (R div (M * P))"
    by simp
  then have "R = R mod (M * P) + M * (P * (R div (M * P)))"
    by (simp only: mult.assoc)
  then have "R div M = (R mod (M * P) + M * (P * (R div (M * P)))) div M"
    by simp
  also have "\<dots> = P * (R div (M * P)) + (R mod (M * P)) div M"
    using assms by (rule div_mult_self2)
  finally show ?thesis by (simp add: mult.commute)
qed

lemma div_less_10:
  fixes R B :: int
  assumes "0 < B" "R < B * 10"
  shows "R div B < 10"
proof -
  have "B * (R div B) + R mod B = R" by simp
  moreover have "0 \<le> R mod B" using assms(1) by simp
  ultimately have "B * (R div B) \<le> R" by linarith
  then have "B * (R div B) < B * 10" using assms(2) by linarith
  then show ?thesis using assms(1) by (simp add: mult_less_cancel_left_pos)
qed

lemma div_loop_correct:
  assumes m: "ha_int_valid m" "ha_int_value m \<noteq> 0"
    and d: "ha_int_valid dividend" "sign dividend"
    and dl: "dividend_len + 1 = length (digits m) + length is"
    and R: "ha_int_value dividend < \<bar>ha_int_value m\<bar> * 10 ^ length is"
    and ix: "idx + length is \<le> length ds" and dc: "list_all digit_char ds"
  shows "\<exists>dividend' dl' ds'.
      div_loop m is (dividend, dividend_len, idx, ds) = Some (Inr (dividend', dl', idx + length is, ds'))
      \<and> length ds' = length ds \<and> list_all digit_char ds'
      \<and> drop (idx + length is) ds' = drop (idx + length is) ds
      \<and> dval (rev (take (idx + length is) ds'))
          = dval (rev (take idx ds)) * 10 ^ length is + ha_int_value dividend div \<bar>ha_int_value m\<bar>"
  using d dl R ix dc
proof (induction "is" arbitrary: dividend dividend_len idx ds)
  case Nil
  have "0 \<le> ha_int_value dividend"
    using Nil.prems by (simp add: ha_int_value_sign)
  then have "ha_int_value dividend div \<bar>ha_int_value m\<bar> = 0"
    using Nil.prems by (simp add: div_pos_pos_trivial)
  then show ?case using Nil.prems by simp
next
  case (Cons i "is")
  let ?M = "\<bar>ha_int_value m\<bar>" and ?R = "ha_int_value dividend"
  let ?l = "length is"
  let ?P = "(10::int) ^ ?l"
  let ?p10 = "\<lparr>sign = True, digits = replicate ?l CHR ''0'' @ ''1''\<rparr>"
  let ?mm = "ha_int_mult m ?p10"
  let ?md = "?mm\<lparr>sign := True\<rparr>"
  have ml: "0 < length (digits m)"
    using m(1) by (cases "digits m") (auto simp: ha_int_valid_def digits_ok_def)
  have ld: "dividend_len - length (digits m) = ?l"
    using Cons.prems(3) by simp
  have mm: "ha_int_valid ?mm" "ha_int_value ?mm = ha_int_value m * ?P"
    using ha_int_mult_correct [OF m(1) ten_to_power_valid(1) [of ?l]]
    by (simp_all add: ten_to_power_valid(2))
  have md: "ha_int_valid ?md" "sign ?md" "ha_int_value ?md = ?M * ?P"
    using mm ha_int_value_abs [OF mm(1)]
    by (simp_all add: ha_int_valid_def ha_int_value_def abs_mult)
  have mdpos: "0 < ha_int_value ?md"
    using m(2) by (simp add: md(3))
  from sub_loop_correct [OF md(1,2) mdpos Cons.prems(1,2), of 0]
  obtain d' where d': "sub_loop ?md dividend 0 = Some (d', ?R div (?M * ?P))"
    "ha_int_valid d'" "sign d'" "ha_int_value d' = ?R mod (?M * ?P)"
    by (auto simp: md(3))
  let ?q = "?R div (?M * ?P)"
  let ?ds1 = "ds[idx := to_char ?q]"
  have R0: "0 \<le> ?R"
    using Cons.prems by (simp add: ha_int_value_sign)
  have MP: "0 < ?M * ?P"
    using mdpos by (simp add: md(3))
  have "?R < (?M * ?P) * 10"
    using Cons.prems(4) by (simp add: algebra_simps)
  then have "?q < 10"
    using MP by (intro div_less_10)
  moreover have "0 \<le> ?q"
    using R0 MP by (simp add: pos_imp_zdiv_nonneg_iff)
  ultimately have q: "0 \<le> ?q" "?q \<le> 9" by simp_all
  have step: "div_loop m (i # is) (dividend, dividend_len, idx, ds)
      = div_loop m is (d', dividend_len - 1, idx + 1, ?ds1)"
    by (simp add: ld ten_to_power_create d' Let_def)
  have p1: "dividend_len - 1 + 1 = length (digits m) + ?l"
    using Cons.prems(3) ml by simp
  have p2: "ha_int_value d' < ?M * ?P"
    using MP by (simp add: d'(4))
  have p3: "idx + 1 + ?l \<le> length ?ds1"
    using Cons.prems(5) by simp
  have p4: "list_all digit_char ?ds1"
    using Cons.prems(6) q by (intro list_all_update to_char_digit)
  from Cons.IH [OF d'(2,3) p1 p2 p3 p4]
  obtain dividend' dl' ds' where r:
    "div_loop m is (d', dividend_len - 1, idx + 1, ?ds1) = Some (Inr (dividend', dl', idx + 1 + ?l, ds'))"
    "length ds' = length ?ds1" "list_all digit_char ds'"
    "drop (idx + 1 + ?l) ds' = drop (idx + 1 + ?l) ?ds1"
    "dval (rev (take (idx + 1 + ?l) ds'))
      = dval (rev (take (idx + 1) ?ds1)) * ?P + ha_int_value d' div ?M"
    by blast
  have idx: "idx < length ds"
    using Cons.prems(5) by simp
  have "take (idx + 1) ?ds1 = take idx ds @ [to_char ?q]"
    using idx by (simp add: take_Suc_conv_app_nth)
  then have t: "dval (rev (take (idx + 1) ?ds1)) = ?q + 10 * dval (rev (take idx ds))"
    using q by (simp add: to_char_dig)
  have "?R div ?M = ?q * ?P + (?R mod (?M * ?P)) div ?M"
    using m(2) by (intro div_split) simp
  then have v: "dval (rev (take (idx + 1 + ?l) ds'))
      = dval (rev (take idx ds)) * (10 * ?P) + ?R div ?M"
    using r(5) t d'(4) by (simp add: algebra_simps)
  have dr: "drop (idx + 1 + ?l) ds' = drop (idx + 1 + ?l) ds"
    using r(4) by simp
  show ?case
    unfolding step using r(1,2,3) v dr by (simp add: add.assoc)
qed


lemma dval_lower':
  assumes "digits_ok ds" "dval ds \<noteq> 0"
  shows "10 ^ (length ds - 1) \<le> dval ds"
proof (cases "1 < length ds")
  case True
  then show ?thesis using assms(1) by (rule dval_lower [rotated])
next
  case False
  moreover have "0 \<le> dval ds"
    using assms(1) by (simp add: digits_ok_def dval_nonneg)
  ultimately show ?thesis using assms(2) by (cases ds) auto
qed

lemma ha_int_quotient_correct:
  assumes n: "ha_int_valid n" and m: "ha_int_valid m" and nz: "ha_int_value m \<noteq> 0"
  shows "\<exists>q. ha_int_quotient n m = Some (Inr q) \<and> ha_int_valid q
      \<and> ha_int_value q = ha_int_value n sdiv ha_int_value m"
proof -
  let ?nl = "length (digits n)" and ?ml = "length (digits m)"
  let ?R = "\<bar>ha_int_value n\<bar>" and ?M = "\<bar>ha_int_value m\<bar>"
  define js where "js = [?ml..<?nl + 1]"
  let ?dividend = "(ha_int_copy n)\<lparr>sign := True\<rparr>"
  define k where "k = (if abs_gt m n then 1 else ?nl)"
  define sg where "sg = (if abs_gt m n then True else mult_div_sign n m)"
  let ?ds0 = "replicate k CHR ''0''"
  have dn: "digits_ok (digits n)" and dm: "digits_ok (digits m)"
    using n m by (simp_all add: ha_int_valid_def)
  have nl: "0 < ?nl" and ml: "0 < ?ml"
    using digits_ok_pos_length [OF dn] digits_ok_pos_length [OF dm] by simp_all
  have Rn: "dval (digits n) = ?R" and Mm: "dval (digits m) = ?M"
    using n m by (simp_all add: ha_int_value_abs)
  have gt: "abs_gt m n \<longleftrightarrow> ?R < ?M"
    using abs_gt_iff [OF dm dn] by (simp add: Rn Mm)
  have nzm: "\<not> is_zero m"
    using m nz by (simp add: is_zero_iff)
  have dv: "ha_int_valid ?dividend" "sign ?dividend" "ha_int_value ?dividend = ?R"
    using dn Rn by (simp_all add: ha_int_copy_def ha_int_valid_def ha_int_value_def)
  have q: "ha_int_quotient n m =
      (case div_loop m js (?dividend, ?nl, 0, ?ds0) of
         None \<Rightarrow> None
       | Some (Inl e) \<Rightarrow> Some (Inl e)
       | Some (Inr (dividend', dividend_len, idx, ds)) \<Rightarrow>
           Some (Inr \<lparr>sign = sg,
                      digits = remove_leading_zeros (fold (swap_step idx) [0..<idx div 2] ds)\<rparr>))"
    using nzm by (simp add: ha_int_quotient_def k_def sg_def js_def init_new_int_def Let_def
        cong: option.case_cong sum.case_cong prod.case_cong)
  have sgn_eq: "ha_int_value n sdiv ha_int_value m = (if sg then ?R div ?M else - (?R div ?M))"
  proof (cases "?R < ?M")
    case True
    then have "?R div ?M = 0" by (simp add: div_pos_pos_trivial)
    then show ?thesis by (simp add: signed_divide_int_def)
  next
    case False
    then have "ha_int_value n \<noteq> 0" using nz by auto
    then have "sg \<longleftrightarrow> sign n = sign m"
      using False gt nz mult_div_sign_iff [OF n m] by (simp add: sg_def)
    then show ?thesis
      using \<open>ha_int_value n \<noteq> 0\<close> nz ha_int_value_sign [OF n] ha_int_value_sign [OF m]
      by (auto simp: signed_divide_int_def sgn_if)
  qed
  have sgz: "\<not> sg \<Longrightarrow> ?R div ?M \<noteq> 0"
  proof -
    assume "\<not> sg"
    then have "\<not> ?R < ?M" using gt by (auto simp: sg_def split: if_splits)
    then have "?M \<le> ?R" by simp
    moreover have "0 < ?M" using nz by simp
    ultimately have "0 < ?R div ?M"
      by (simp add: pos_imp_zdiv_pos_iff)
    then show ?thesis by simp
  qed
  have fin: "\<exists>q. ha_int_quotient n m = Some (Inr q) \<and> ha_int_valid q
      \<and> ha_int_value q = (if sg then ?R div ?M else - (?R div ?M))"
    if r: "div_loop m js (?dividend, ?nl, 0, ?ds0) = Some (Inr (dividend', dl', idx, ds'))"
      and l: "length ds' = k" "idx \<le> k" and dc: "list_all digit_char ds'"
      and dr: "drop idx ds' = drop idx ?ds0"
      and v: "dval (rev (take idx ds')) = ?R div ?M"
    for dividend' dl' idx ds'
  proof -
    let ?out = "fold (swap_step idx) [0..<idx div 2] ds'"
    have out: "?out = rev (take idx ds') @ drop idx ds'"
      using l by (intro swap_fold) simp
    have k: "0 < k" using nl by (simp add: k_def)
    have "dval (drop idx ?ds0) = 0" by simp
    then have vo: "dval ?out = ?R div ?M"
      using v by (simp add: out dval_append dr)
    have "list_all digit_char ?out"
      using dc by (auto simp: out list_all_iff dest: in_set_takeD in_set_dropD)
    moreover have "?out \<noteq> []"
      using k l by (auto simp: out)
    ultimately have ok: "digits_ok (remove_leading_zeros ?out)"
      by (intro digits_ok_remove_leading_zeros)
    let ?q = "\<lparr>sign = sg, digits = remove_leading_zeros ?out\<rparr>"
    have "ha_int_quotient n m = Some (Inr ?q)"
      unfolding q r by simp
    moreover have "ha_int_valid ?q"
      using ok sgz vo by (simp add: ha_int_valid_iff)
    moreover have "ha_int_value ?q = (if sg then ?R div ?M else - (?R div ?M))"
      using vo by (simp add: ha_int_value_def)
    ultimately show ?thesis by blast
  qed
  show ?thesis
  proof (cases "?nl < ?ml")
    case True
    then have e: "js = []" by (simp add: js_def)
    have g: "abs_gt m n" using True by (simp add: abs_gt_def)
    then have "?R div ?M = 0" using gt by (simp add: div_pos_pos_trivial)
    moreover have "div_loop m js (?dividend, ?nl, 0, ?ds0) = Some (Inr (?dividend, ?nl, 0, ?ds0))"
      unfolding e by simp
    ultimately have "\<exists>q. ha_int_quotient n m = Some (Inr q) \<and> ha_int_valid q
      \<and> ha_int_value q = (if sg then ?R div ?M else - (?R div ?M))"
      using g by (intro fin [of ?dividend ?nl 0 ?ds0]) (simp_all add: k_def)
    then show ?thesis by (simp add: sgn_eq)
  next
    case False
    then have len: "length js = ?nl + 1 - ?ml" by (simp add: js_def)
    have p1: "?nl + 1 = ?ml + length js"
      using False by (simp add: len)
    have p2: "ha_int_value ?dividend < ?M * 10 ^ length js"
    proof (cases "abs_gt m n")
      case True
      have "0 < ?M" using nz by simp
      moreover have "(1::int) \<le> 10 ^ length js" by simp
      ultimately have "?M * 1 \<le> ?M * 10 ^ length js"
        by (intro mult_left_mono) simp_all
      then show ?thesis using True gt by (simp add: dv(3))
    next
      case g: False
      have "?R < 10 ^ ?nl"
        using dn dval_less [of "digits n"] by (simp add: digits_ok_def Rn)
      moreover have "(10::int) ^ (?ml - 1) \<le> ?M"
        using dval_lower' [OF dm] nz by (simp add: Mm)
      then have "(10::int) ^ (?ml - 1) * 10 ^ length js \<le> ?M * 10 ^ length js"
        by (intro mult_right_mono) simp_all
      moreover have "?ml - 1 + length js = ?nl"
        using False ml len by linarith
      then have "(10::int) ^ (?ml - 1) * 10 ^ length js = 10 ^ ?nl"
        by (simp only: power_add [symmetric])
      ultimately show ?thesis unfolding dv(3) by linarith
    qed
    have kk: "k = 1 \<and> ?nl = ?ml \<or> k = ?nl"
      using False gt digits_ok_length_le [OF dn dm] by (auto simp: k_def Rn Mm)
    then have "length js \<le> k"
      using ml len by linarith
    then have p3: "0 + length js \<le> length ?ds0"
      by simp
    have p4: "list_all digit_char ?ds0"
      by (simp add: list_all_iff)
    from div_loop_correct [OF m nz dv(1,2) p1 p2 p3 p4]
    obtain dividend' dl' ds' where r:
      "div_loop m js (?dividend, ?nl, 0, ?ds0) = Some (Inr (dividend', dl', 0 + length js, ds'))"
      "length ds' = length ?ds0" "list_all digit_char ds'"
      "drop (0 + length js) ds' = drop (0 + length js) ?ds0"
      "dval (rev (take (0 + length js) ds')) = dval (rev (take 0 ?ds0)) * 10 ^ length js
          + ha_int_value ?dividend div ?M"
      by blast
    have "\<exists>q. ha_int_quotient n m = Some (Inr q) \<and> ha_int_valid q
      \<and> ha_int_value q = (if sg then ?R div ?M else - (?R div ?M))"
    proof (rule fin [of dividend' dl' "length js" ds'])
      show "div_loop m js (?dividend, ?nl, 0, ?ds0) = Some (Inr (dividend', dl', length js, ds'))"
        using r(1) by simp
      show "length ds' = k" using r(2) by simp
      show "length js \<le> k" using p3 by simp
      show "list_all digit_char ds'" by (rule r(3))
      show "drop (length js) ds' = drop (length js) ?ds0" using r(4) by simp
      show "dval (rev (take (length js) ds')) = ?R div ?M"
        using r(5) by (simp add: dv(3))
    qed
    then show ?thesis by (simp add: sgn_eq)
  qed
qed

subsection \<open>Remainder\<close>

lemma ha_int_remainder_correct:
  assumes n: "ha_int_valid n" and m: "ha_int_valid m" and nz: "ha_int_value m \<noteq> 0"
  shows "\<exists>q. ha_int_quotient n m = Some (Inr q) \<and> ha_int_valid q
      \<and> ha_int_value q = ha_int_value n sdiv ha_int_value m
      \<and> ha_int_remainder n m = Some (Inr (ha_int_sub n (ha_int_mult m q)))
      \<and> ha_int_valid (ha_int_sub n (ha_int_mult m q))
      \<and> ha_int_value (ha_int_sub n (ha_int_mult m q)) = ha_int_value n smod ha_int_value m"
proof -
  from ha_int_quotient_correct [OF n m nz]
  obtain q where q: "ha_int_quotient n m = Some (Inr q)" "ha_int_valid q"
    "ha_int_value q = ha_int_value n sdiv ha_int_value m"
    by blast
  have mq: "ha_int_valid (ha_int_mult m q)"
    "ha_int_value (ha_int_mult m q) = ha_int_value m * ha_int_value q"
    using ha_int_mult_correct [OF m q(2)] by simp_all
  have r: "ha_int_valid (ha_int_sub n (ha_int_mult m q))"
    "ha_int_value (ha_int_sub n (ha_int_mult m q)) = ha_int_value n - ha_int_value m * ha_int_value q"
    using ha_int_sub_correct [OF n mq(1)] by (simp_all add: mq(2))
  have "\<not> is_zero m"
    using m nz by (simp add: is_zero_iff)
  then have "ha_int_remainder n m = Some (Inr (ha_int_sub n (ha_int_mult m q)))"
    by (simp add: ha_int_remainder_def q(1))
  moreover have "ha_int_value n - ha_int_value m * ha_int_value q = ha_int_value n smod ha_int_value m"
    by (simp add: q(3) minus_mult_sdiv_eq_smod)
  ultimately show ?thesis
    using q r by auto
qed

lemma ha_int_valid_zero: "ha_int_valid \<lparr>sign = True, digits = ''0''\<rparr>"
  "ha_int_value \<lparr>sign = True, digits = ''0''\<rparr> = 0"
  by (simp_all add: ha_int_valid_def digits_ok_def ha_int_value_def)

lemma ha_int_valid_one: "ha_int_valid \<lparr>sign = True, digits = ''1''\<rparr>"
  "ha_int_value \<lparr>sign = True, digits = ''1''\<rparr> = 1"
  by (simp_all add: ha_int_valid_def digits_ok_def ha_int_value_def digit_char_iff dig_def)

subsection \<open>Three-way comparison, sign and greatest common divisor\<close>

lemma ha_int_copy_id [simp]: "ha_int_copy n = n"
  by (simp add: ha_int_copy_def)

lemma ha_int_cmp_eq:
  assumes "ha_int_valid n" "ha_int_valid m"
  shows "ha_int_cmp n m = sgn (ha_int_value n - ha_int_value m)"
proof -
  have "n = m \<longleftrightarrow> ha_int_value n = ha_int_value m"
    using ha_int_value_inj [OF assms] by auto
  then show ?thesis
    using ha_int_gt_iff [OF assms] by (auto simp: ha_int_cmp_def ha_int_eq_iff sgn_if)
qed

lemma ha_int_sign_eq: "ha_int_valid n \<Longrightarrow> ha_int_sign n = sgn (ha_int_value n)"
  using ha_int_cmp_eq [OF _ ha_int_valid_zero(1), of n]
  by (simp add: ha_int_sign_def ha_int_valid_zero(2))

lemma get_gcd_correct:
  assumes "ha_int_valid small" "ha_int_valid big" "0 < ha_int_value small" "0 < ha_int_value big"
  shows "\<exists>g. get_gcd small big = Some (Inr g) \<and> ha_int_valid g
      \<and> ha_int_value g = gcd (ha_int_value small) (ha_int_value big)"
  using assms
proof (induction "nat (ha_int_value small)" arbitrary: small big rule: less_induct)
  case less
  let ?vs = "ha_int_value small" and ?vb = "ha_int_value big"
  have nz: "?vs \<noteq> 0" using less.prems by simp
  from ha_int_remainder_correct [OF less.prems(2,1) nz]
  obtain remain where r: "ha_int_remainder big small = Some (Inr remain)" "ha_int_valid remain"
    "ha_int_value remain = ?vb smod ?vs"
    by blast
  have rv: "ha_int_value remain = ?vb mod ?vs"
    using less.prems by (simp add: r(3) signed_modulo_int_def sgn_if)
  have sg: "ha_int_sign small > 0" "ha_int_sign big > 0"
    using less.prems by (simp_all add: ha_int_sign_eq)
  have sr: "ha_int_sign remain = 0 \<longleftrightarrow> ?vb mod ?vs = 0"
    using r(2) by (simp add: ha_int_sign_eq rv sgn_if)
  show ?case
  proof (cases "?vb mod ?vs = 0")
    case True
    then have "get_gcd small big = Some (Inr small)"
      using sg sr r(1) by (subst get_gcd.simps) simp
    moreover have "?vs dvd ?vb"
      using True by (simp add: dvd_eq_mod_eq_0)
    then have "gcd ?vs ?vb = ?vs"
      using less.prems(3) by (simp add: gcd_proj1_iff)
    ultimately show ?thesis
      using less.prems(1) by simp
  next
    case False
    then have g: "get_gcd small big = get_gcd remain small"
      using sg sr r(1) by (subst get_gcd.simps) simp
    have pos: "0 < ha_int_value remain"
      using False less.prems(3) pos_mod_sign [of ?vs ?vb] by (simp add: rv order_le_less)
    have "ha_int_value remain < ?vs"
      using less.prems(3) by (simp add: rv)
    then have "nat (ha_int_value remain) < nat ?vs"
      using pos by simp
    from less.hyps [OF this r(2) less.prems(1) pos less.prems(3)]
    obtain gg where gg: "get_gcd remain small = Some (Inr gg)" "ha_int_valid gg"
      "ha_int_value gg = gcd (ha_int_value remain) ?vs"
      by blast
    have "gcd (?vb mod ?vs) ?vs = gcd ?vs ?vb"
      by (metis gcd_red_int gcd.commute)
    then show ?thesis
      using g gg by (simp add: rv)
  qed
qed

lemma posi_copy_correct:
  assumes "ha_int_valid n"
  shows "ha_int_valid (posi_copy n)" "ha_int_value (posi_copy n) = \<bar>ha_int_value n\<bar>"
  using ha_int_sub_correct [OF ha_int_valid_zero(1) assms] assms
  by (auto simp: posi_copy_def ha_int_sign_eq ha_int_valid_zero(2) sgn_if)

subsection \<open>Reduction of fractions\<close>

lemma both_Inr [simp]: "both (Some (Inr a)) (Some (Inr b)) = Some (Inr (a, b))"
  by (simp add: both_def)

lemma rat_div_cancel:
  fixes A B g :: int
  assumes "g dvd A" "g dvd B" "g \<noteq> 0"
  shows "(of_int (A div g) :: rat) / of_int (B div g) = of_int A / of_int B"
proof -
  obtain A' B' where "A = g * A'" "B = g * B'"
    using assms(1,2) by (auto elim!: dvdE)
  then show ?thesis using assms(3) by simp
qed

lemma rat_sign_split:
  fixes a b :: int
  assumes "a \<noteq> 0" "b \<noteq> 0"
  shows "(of_int a :: rat) / of_int b
      = (if (0 < a) = (0 < b) then of_int \<bar>a\<bar> / of_int \<bar>b\<bar> else - (of_int \<bar>a\<bar> / of_int \<bar>b\<bar>))"
  using assms by (auto simp: abs_if)

lemma sdiv_pos: "0 < a \<Longrightarrow> 0 < b \<Longrightarrow> a sdiv b = a div (b::int)"
  by (simp add: signed_divide_int_def)

lemma ha_frac_reduc_zero:
  assumes a: "ha_int_valid a" and b: "ha_int_valid b" and nz: "ha_int_value b \<noteq> 0"
    and z: "ha_int_value a = 0"
  shows "ha_frac_reduc a b
      = Some (Inr \<lparr>nega = False, nume = \<lparr>sign = True, digits = ''0''\<rparr>,
                    denom = \<lparr>sign = True, digits = ''1''\<rparr>\<rparr>)"
proof -
  have "ha_int_sign b \<noteq> 0" "ha_int_sign a = 0"
    using a b nz z by (simp_all add: ha_int_sign_eq sgn_if)
  then show ?thesis
    unfolding ha_frac_reduc_def by (simp add: Let_def)
qed

lemma reduc_negative:
  fixes va vb :: int
  assumes "va \<noteq> 0" "vb \<noteq> 0"
  shows "(\<not> ((sgn va > 0 \<and> sgn vb > 0) \<or> (sgn va < 0 \<and> sgn vb < 0))) \<longleftrightarrow> (0 < va) \<noteq> (0 < vb)"
proof -
  have "sgn va > 0 \<longleftrightarrow> 0 < va" "sgn vb > 0 \<longleftrightarrow> 0 < vb" "sgn va < 0 \<longleftrightarrow> va < 0" "sgn vb < 0 \<longleftrightarrow> vb < 0"
    by simp_all
  then show ?thesis using assms by auto
qed

lemma ha_frac_reduc_unit:
  assumes a: "ha_int_valid a" and b: "ha_int_valid b" and nz: "ha_int_value b \<noteq> 0"
    and az: "ha_int_value a \<noteq> 0" and eq: "\<bar>ha_int_value a\<bar> = \<bar>ha_int_value b\<bar>"
  shows "ha_frac_reduc a b
      = Some (Inr \<lparr>nega = ((0 < ha_int_value a) \<noteq> (0 < ha_int_value b)),
                    nume = \<lparr>sign = True, digits = ''1''\<rparr>,
                    denom = \<lparr>sign = True, digits = ''1''\<rparr>\<rparr>)"
proof -
  have s: "ha_int_sign b = sgn (ha_int_value b)" "ha_int_sign a = sgn (ha_int_value a)"
    using a b by (simp_all add: ha_int_sign_eq)
  have s0: "sgn (ha_int_value b) \<noteq> 0" "sgn (ha_int_value a) \<noteq> 0"
    using nz az by (simp_all add: sgn_if)
  have "ha_int_cmp (posi_copy a) (posi_copy b) = 0"
    using ha_int_cmp_eq [OF posi_copy_correct(1) [OF a] posi_copy_correct(1) [OF b]] eq
    by (simp add: posi_copy_correct(2) [OF a] posi_copy_correct(2) [OF b])
  then show ?thesis
    unfolding ha_frac_reduc_def s Let_def
    by (simp only: s0 if_False if_True reduc_negative [OF az nz] ha_int_literal_1 simp_thms)
qed

lemma ha_frac_reduc_general:
  assumes a: "ha_int_valid a" and b: "ha_int_valid b" and nz: "ha_int_value b \<noteq> 0"
    and az: "ha_int_value a \<noteq> 0" and ne: "\<bar>ha_int_value a\<bar> \<noteq> \<bar>ha_int_value b\<bar>"
  shows "\<exists>qn qd. ha_frac_reduc a b
        = Some (Inr \<lparr>nega = ((0 < ha_int_value a) \<noteq> (0 < ha_int_value b)), nume = qn, denom = qd\<rparr>)
      \<and> ha_int_valid qn \<and> ha_int_valid qd
      \<and> ha_int_value qn = \<bar>ha_int_value a\<bar> div gcd \<bar>ha_int_value a\<bar> \<bar>ha_int_value b\<bar>
      \<and> ha_int_value qd = \<bar>ha_int_value b\<bar> div gcd \<bar>ha_int_value a\<bar> \<bar>ha_int_value b\<bar>"
proof -
  let ?va = "ha_int_value a" and ?vb = "ha_int_value b"
  let ?n = "posi_copy a" and ?d = "posi_copy b"
  let ?A = "\<bar>?va\<bar>" and ?B = "\<bar>?vb\<bar>"
  let ?g = "gcd ?A ?B"
  have s: "ha_int_sign b = sgn ?vb" "ha_int_sign a = sgn ?va"
    using a b by (simp_all add: ha_int_sign_eq)
  have s0: "sgn ?vb \<noteq> 0" "sgn ?va \<noteq> 0"
    using nz az by (simp_all add: sgn_if)
  have n: "ha_int_valid ?n" "ha_int_value ?n = ?A" and d: "ha_int_valid ?d" "ha_int_value ?d = ?B"
    using posi_copy_correct [OF a] posi_copy_correct [OF b] by simp_all
  have AB: "0 < ?A" "0 < ?B" using az nz by simp_all
  have vn: "0 < ha_int_value ?n" and vd: "0 < ha_int_value ?d"
    using AB by (simp_all only: n(2) d(2))
  have gpos: "0 < ?g" using AB by simp
  have "ha_int_cmp ?n ?d = sgn (?A - ?B)"
    using ha_int_cmp_eq [OF n(1) d(1)] by (simp only: n(2) d(2))
  then have c0: "ha_int_cmp ?n ?d \<noteq> 0"
    using ne by (simp add: sgn_if)
  have "\<exists>g. (if ha_int_cmp ?n ?d = 1 then get_gcd ?d ?n else get_gcd ?n ?d) = Some (Inr g)
      \<and> ha_int_valid g \<and> ha_int_value g = ?g"
  proof (cases "ha_int_cmp ?n ?d = 1")
    case True
    from get_gcd_correct [OF d(1) n(1) vd vn]
    obtain g where "get_gcd ?d ?n = Some (Inr g)" "ha_int_valid g" "ha_int_value g = gcd ?B ?A"
      unfolding n(2) d(2) by blast
    then show ?thesis using True by (simp add: gcd.commute)
  next
    case False
    from get_gcd_correct [OF n(1) d(1) vn vd]
    obtain g where "get_gcd ?n ?d = Some (Inr g)" "ha_int_valid g" "ha_int_value g = gcd ?A ?B"
      unfolding n(2) d(2) by blast
    then show ?thesis using False by simp
  qed
  then obtain g where g: "(if ha_int_cmp ?n ?d = 1 then get_gcd ?d ?n else get_gcd ?n ?d) = Some (Inr g)"
    "ha_int_valid g" "ha_int_value g = ?g"
    by blast
  have gnz: "ha_int_value g \<noteq> 0" using gpos unfolding g(3) by simp
  from ha_int_quotient_correct [OF n(1) g(2) gnz]
  obtain qn where qn: "ha_int_quotient ?n g = Some (Inr qn)" "ha_int_valid qn"
    "ha_int_value qn = ?A sdiv ?g"
    unfolding n(2) g(3) by blast
  from ha_int_quotient_correct [OF d(1) g(2) gnz]
  obtain qd where qd: "ha_int_quotient ?d g = Some (Inr qd)" "ha_int_valid qd"
    "ha_int_value qd = ?B sdiv ?g"
    unfolding d(2) g(3) by blast
  have "ha_frac_reduc a b
      = Some (Inr \<lparr>nega = ((0 < ?va) \<noteq> (0 < ?vb)), nume = qn, denom = qd\<rparr>)"
    unfolding ha_frac_reduc_def s Let_def
    by (simp only: s0 c0 g(1) qn(1) qd(1) both_Inr if_False reduc_negative [OF az nz]
        option.case sum.case prod.case simp_thms)
  then show ?thesis
    using qn(2,3) qd(2,3) sdiv_pos [OF AB(1) gpos] sdiv_pos [OF AB(2) gpos] by auto
qed

lemma ha_frac_reduc_correct:
  assumes a: "ha_int_valid a" and b: "ha_int_valid b" and nz: "ha_int_value b \<noteq> 0"
  shows "\<exists>f. ha_frac_reduc a b = Some (Inr f) \<and> ha_frac_valid f
      \<and> ha_frac_value f = of_int (ha_int_value a) / of_int (ha_int_value b)"
proof -
  let ?va = "ha_int_value a" and ?vb = "ha_int_value b"
  let ?A = "\<bar>?va\<bar>" and ?B = "\<bar>?vb\<bar>"
  show ?thesis
  proof (cases "?va = 0")
    case True
    show ?thesis
      unfolding ha_frac_reduc_zero [OF a b nz True]
      using True by (simp add: ha_frac_valid_def ha_frac_value_def ha_int_valid_zero ha_int_valid_one)
  next
    case False
    define ng where "ng = ((0 < ?va) \<noteq> (0 < ?vb))"
    have AB: "0 < ?A" "0 < ?B" using False nz by simp_all
    have val: "(of_int ?va :: rat) / of_int ?vb
        = (if ng then - (of_int ?A / of_int ?B) else of_int ?A / of_int ?B)"
      unfolding ng_def using rat_sign_split [OF False nz] by (simp split: if_splits)
    show ?thesis
    proof (cases "?A = ?B")
      case True
      have e1: "(of_int ?A :: rat) / of_int ?B = 1"
        using True AB by simp
      have "(of_int ?va :: rat) / of_int ?vb = (if ng then - 1 else 1)"
        unfolding val e1 by simp
      then show ?thesis
        unfolding ha_frac_reduc_unit [OF a b nz False True] ng_def [symmetric]
        by (simp add: ha_frac_valid_def ha_frac_value_def ha_int_valid_one)
    next
      case ne: False
      let ?g = "gcd ?A ?B"
      have gpos: "0 < ?g" using AB by simp
      from ha_frac_reduc_general [OF a b nz False ne]
      obtain qn qd where red: "ha_frac_reduc a b = Some (Inr \<lparr>nega = ng, nume = qn, denom = qd\<rparr>)"
        and qn: "ha_int_valid qn" "ha_int_value qn = ?A div ?g"
        and qd: "ha_int_valid qd" "ha_int_value qd = ?B div ?g"
        unfolding ng_def by blast
      have dA: "?g dvd ?A" and dB: "?g dvd ?B" by simp_all
      have pA: "0 < ?A div ?g" and pB: "0 < ?B div ?g"
        using AB gpos dA dB by (simp_all add: pos_imp_zdiv_pos_iff zdvd_imp_le)
      have "?A \<noteq> 0 \<or> ?B \<noteq> 0"
        using AB(1) by linarith
      then have "coprime (?A div ?g) (?B div ?g)"
        by (rule div_gcd_coprime)
      then have cop: "gcd (?A div ?g) (?B div ?g) = 1"
        by (rule coprime_imp_gcd_eq_1)
      have sn: "sign qn" "sign qd"
        using pA pB ha_int_value_sign [OF qn(1)] ha_int_value_sign [OF qd(1)]
        by (simp_all add: qn(2) qd(2))
      have "ha_frac_valid \<lparr>nega = ng, nume = qn, denom = qd\<rparr>"
        using qn(1) qd(1) sn pA pB cop by (simp add: ha_frac_valid_def qn(2) qd(2))
      moreover have "(of_int (?A div ?g) :: rat) / of_int (?B div ?g) = of_int ?A / of_int ?B"
        using dA dB gpos by (intro rat_div_cancel) simp_all
      then have "ha_frac_value \<lparr>nega = ng, nume = qn, denom = qd\<rparr>
          = of_int ?va / of_int ?vb"
        by (simp add: val ha_frac_value_def qn(2) qd(2))
      ultimately show ?thesis
        using red by blast
    qed
  qed
qed

lemma ha_frac_create_correct:
  assumes a: "ha_int_valid a" and b: "ha_int_valid b" and nz: "ha_int_value b \<noteq> 0"
  shows "\<exists>f. ha_frac_create (ha_int_to_str a) (ha_int_to_str b) = Some (Inr f) \<and> ha_frac_valid f
      \<and> ha_frac_value f = of_int (ha_int_value a) / of_int (ha_int_value b)"
proof -
  have "ha_int_sign b \<noteq> 0"
    using b nz by (simp add: ha_int_sign_eq sgn_if)
  then have "ha_frac_create (ha_int_to_str a) (ha_int_to_str b) = ha_frac_reduc a b"
    using valid_decimal_to_str(2) [OF a] valid_decimal_to_str(2) [OF b]
    by (simp add: ha_frac_create_def)
  then show ?thesis
    using ha_frac_reduc_correct [OF a b nz] by simp
qed

lemma ha_frac_valid_sign:
  assumes "ha_frac_valid f"
  shows "nega f \<longleftrightarrow> ha_frac_value f < 0"
    and "ha_int_value (nume f) = 0 \<longleftrightarrow> ha_frac_value f = 0"
proof -
  have d: "0 < ha_int_value (denom f)" and n: "0 \<le> ha_int_value (nume f)"
    and z: "ha_int_value (nume f) = 0 \<longrightarrow> \<not> nega f"
    using assms ha_int_value_sign [of "nume f"] by (auto simp: ha_frac_valid_def)
  have q: "0 \<le> (of_int (ha_int_value (nume f)) :: rat) / of_int (ha_int_value (denom f))"
    using d n by simp
  have q0: "(of_int (ha_int_value (nume f)) :: rat) / of_int (ha_int_value (denom f)) = 0
      \<longleftrightarrow> ha_int_value (nume f) = 0"
    using d by simp
  show "nega f \<longleftrightarrow> ha_frac_value f < 0"
    using q q0 z by (auto simp: ha_frac_value_def order_le_less)
  show "ha_int_value (nume f) = 0 \<longleftrightarrow> ha_frac_value f = 0"
    using q0 by (auto simp: ha_frac_value_def)
qed

subsection \<open>Fraction arithmetic\<close>

lemma ha_frac_valid_wf: "ha_frac_valid f \<Longrightarrow> ha_frac_wf f"
  by (simp add: ha_frac_valid_def ha_frac_wf_def)

lemma ha_frac_wf_nonneg: "ha_frac_wf f \<Longrightarrow> 0 \<le> ha_int_value (nume f)"
  using ha_int_value_sign [of "nume f"] by (simp add: ha_frac_wf_def)

lemma cross_gcd:
  fixes b d :: int
  shows "(b div gcd b d) * d = (d div gcd b d) * b"
proof -
  have "(b div gcd b d) * d = (b * d) div gcd b d"
    by (rule dvd_div_mult) simp
  moreover have "(d div gcd b d) * b = (d * b) div gcd b d"
    by (rule dvd_div_mult) simp
  ultimately show ?thesis by (simp add: mult.commute)
qed

lemma common_denominator:
  assumes n: "ha_frac_wf n" and m: "ha_frac_wf m"
  shows "\<exists>x y z.
      ha_frac_add_operands n m = Some (Inr (x, y, z))
      \<and> ha_int_valid x \<and> ha_int_valid y \<and> ha_int_valid z
      \<and> 0 < ha_int_value z
      \<and> ha_int_value x * ha_int_value (denom n) = ha_int_value (nume n) * ha_int_value z
      \<and> ha_int_value y * ha_int_value (denom m) = ha_int_value (nume m) * ha_int_value z
      \<and> (ha_int_value (denom n) = ha_int_value (denom m)
            \<longrightarrow> x = nume n \<and> y = nume m \<and> z = denom n)
      \<and> (ha_int_value (denom n) \<noteq> ha_int_value (denom m)
            \<longrightarrow> ha_int_value x
                  = (ha_int_value (denom m) div gcd (ha_int_value (denom n)) (ha_int_value (denom m)))
                    * ha_int_value (nume n)
              \<and> ha_int_value y
                  = (ha_int_value (denom n) div gcd (ha_int_value (denom n)) (ha_int_value (denom m)))
                    * ha_int_value (nume m)
              \<and> ha_int_value z
                  = (ha_int_value (denom m) div gcd (ha_int_value (denom n)) (ha_int_value (denom m)))
                    * ha_int_value (denom n))"
proof -
  let ?a = "ha_int_value (nume n)" and ?b = "ha_int_value (denom n)"
  let ?c = "ha_int_value (nume m)" and ?d = "ha_int_value (denom m)"
  have vn: "ha_int_valid (nume n)" "ha_int_valid (denom n)" "0 < ?b"
    using n by (simp_all add: ha_frac_wf_def)
  have vm: "ha_int_valid (nume m)" "ha_int_valid (denom m)" "0 < ?d"
    using m by (simp_all add: ha_frac_wf_def)
  have cmp: "ha_int_cmp (denom n) (denom m) = sgn (?b - ?d)"
    by (rule ha_int_cmp_eq [OF vn(2) vm(2)])
  show ?thesis
  proof (cases "?b = ?d")
    case True
    then have "ha_int_cmp (denom n) (denom m) = 0"
      by (simp add: cmp)
    then show ?thesis
      using vn vm True by (simp add: ha_frac_add_operands_def mult.commute)
  next
    case False
    then have c0: "ha_int_cmp (denom n) (denom m) \<noteq> 0"
      by (simp add: cmp sgn_if)
    let ?g = "gcd ?b ?d"
    have gpos: "0 < ?g" using vn(3) by simp
    have "\<exists>g. (if ha_int_cmp (denom n) (denom m) > 0 then get_gcd (denom m) (denom n)
               else get_gcd (denom n) (denom m)) = Some (Inr g)
        \<and> ha_int_valid g \<and> ha_int_value g = ?g"
    proof (cases "ha_int_cmp (denom n) (denom m) > 0")
      case True
      from get_gcd_correct [OF vm(2) vn(2) vm(3) vn(3)]
      obtain g where "get_gcd (denom m) (denom n) = Some (Inr g)" "ha_int_valid g"
        "ha_int_value g = gcd ?d ?b"
        by blast
      then show ?thesis using True by (simp add: gcd.commute)
    next
      case False
      from get_gcd_correct [OF vn(2) vm(2) vn(3) vm(3)]
      obtain g where "get_gcd (denom n) (denom m) = Some (Inr g)" "ha_int_valid g"
        "ha_int_value g = gcd ?b ?d"
        by blast
      then show ?thesis using False by simp
    qed
    then obtain g where g: "(if ha_int_cmp (denom n) (denom m) > 0 then get_gcd (denom m) (denom n)
               else get_gcd (denom n) (denom m)) = Some (Inr g)"
      "ha_int_valid g" "ha_int_value g = ?g"
      by blast
    have gnz: "ha_int_value g \<noteq> 0" using gpos unfolding g(3) by simp
    from ha_int_quotient_correct [OF vm(2) g(2) gnz]
    obtain n_mult where nm: "ha_int_quotient (denom m) g = Some (Inr n_mult)" "ha_int_valid n_mult"
      "ha_int_value n_mult = ?d sdiv ?g"
      unfolding g(3) by blast
    from ha_int_quotient_correct [OF vn(2) g(2) gnz]
    obtain m_mult where mm: "ha_int_quotient (denom n) g = Some (Inr m_mult)" "ha_int_valid m_mult"
      "ha_int_value m_mult = ?b sdiv ?g"
      unfolding g(3) by blast
    have nmv: "ha_int_value n_mult = ?d div ?g" and mmv: "ha_int_value m_mult = ?b div ?g"
      using sdiv_pos [OF vm(3) gpos] sdiv_pos [OF vn(3) gpos] by (simp_all add: nm(3) mm(3))
    let ?x = "ha_int_mult n_mult (nume n)" and ?y = "ha_int_mult m_mult (nume m)"
    let ?z = "ha_int_mult n_mult (denom n)"
    have x: "ha_int_valid ?x" "ha_int_value ?x = (?d div ?g) * ?a"
      using ha_int_mult_correct [OF nm(2) vn(1)] by (simp_all add: nmv)
    have y: "ha_int_valid ?y" "ha_int_value ?y = (?b div ?g) * ?c"
      using ha_int_mult_correct [OF mm(2) vm(1)] by (simp_all add: mmv)
    have z: "ha_int_valid ?z" "ha_int_value ?z = (?d div ?g) * ?b"
      using ha_int_mult_correct [OF nm(2) vn(2)] by (simp_all add: nmv)
    have "?g dvd ?d" by simp
    then have dg: "0 < ?d div ?g"
      using vm(3) gpos by (simp add: pos_imp_zdiv_pos_iff zdvd_imp_le)
    then have zpos: "0 < ha_int_value ?z"
      using vn(3) by (simp add: z(2))
    have e1: "ha_int_value ?x * ?b = ?a * ha_int_value ?z"
      by (simp add: x(2) z(2))
    have "(?b div ?g) * ?d = (?d div ?g) * ?b"
      by (rule cross_gcd)
    then have "(?b div ?g) * ?c * ?d = ?c * ((?d div ?g) * ?b)"
      by (simp add: mult.commute mult.left_commute)
    then have e2: "ha_int_value ?y * ?d = ?c * ha_int_value ?z"
      by (simp only: y(2) z(2))
    have "ha_frac_add_operands n m = Some (Inr (?x, ?y, ?z))"
      unfolding ha_frac_add_operands_def Let_def
      by (simp only: c0 g(1) nm(1) mm(1) both_Inr if_False option.case sum.case prod.case)
    then show ?thesis
      using x y z zpos e1 e2 False by blast
  qed
qed


lemma rat_of_cross:
  fixes X Z a b :: int
  assumes "X * b = a * Z" "b \<noteq> 0" "Z \<noteq> 0"
  shows "(of_int X :: rat) / of_int Z = of_int a / of_int b"
proof -
  have "(of_int (X * b) :: rat) = of_int (a * Z)"
    by (simp only: assms(1))
  then have "(of_int X :: rat) * of_int b = of_int a * of_int Z"
    by (simp only: of_int_mult)
  then show ?thesis
    using assms(2,3) by (simp add: frac_eq_eq)
qed

lemma ha_frac_force_negative:
  assumes "ha_frac_valid f" "0 < ha_frac_value f"
  shows "ha_frac_valid (f\<lparr>nega := True\<rparr>)" "ha_frac_value (f\<lparr>nega := True\<rparr>) = - ha_frac_value f"
proof -
  have "\<not> nega f" "ha_int_value (nume f) \<noteq> 0"
    using assms ha_frac_valid_sign [OF assms(1)] by auto
  then show "ha_frac_valid (f\<lparr>nega := True\<rparr>)" "ha_frac_value (f\<lparr>nega := True\<rparr>) = - ha_frac_value f"
    using assms(1) by (simp_all add: ha_frac_valid_def ha_frac_value_def)
qed

lemma ha_frac_force_positive:
  assumes "ha_frac_valid f" "0 \<le> ha_frac_value f"
  shows "f\<lparr>nega := False\<rparr> = f"
  using assms ha_frac_valid_sign(1) [OF assms(1)] by simp

lemma ha_frac_add_correct:
  assumes n: "ha_frac_wf n" and ns: "nega n \<longrightarrow> ha_int_value (nume n) \<noteq> 0" and m: "ha_frac_wf m"
  shows "\<exists>f. ha_frac_add n m = Some (Inr f) \<and> ha_frac_valid f
      \<and> ha_frac_value f = ha_frac_value n + ha_frac_value m"
proof -
  let ?a = "ha_int_value (nume n)" and ?b = "ha_int_value (denom n)"
  let ?c = "ha_int_value (nume m)" and ?d = "ha_int_value (denom m)"
  let ?A = "(of_int ?a :: rat) / of_int ?b" and ?C = "(of_int ?c :: rat) / of_int ?d"
  from common_denominator [OF n m]
  obtain x y z where t: "ha_frac_add_operands n m = Some (Inr (x, y, z))"
    and v: "ha_int_valid x" "ha_int_valid y" "ha_int_valid z"
    and zpos: "0 < ha_int_value z"
    and ex: "ha_int_value x * ?b = ?a * ha_int_value z"
    and ey: "ha_int_value y * ?d = ?c * ha_int_value z"
    by blast
  let ?X = "ha_int_value x" and ?Y = "ha_int_value y" and ?Z = "ha_int_value z"
  have bd: "0 < ?b" "0 < ?d" and ac: "0 \<le> ?a" "0 \<le> ?c"
    using n m ha_frac_wf_nonneg [OF n] ha_frac_wf_nonneg [OF m] by (simp_all add: ha_frac_wf_def)
  have qx: "(of_int ?X :: rat) / of_int ?Z = ?A" and qy: "(of_int ?Y :: rat) / of_int ?Z = ?C"
    using ex ey bd zpos by (auto intro!: rat_of_cross)
  let ?new = "if (nega n \<and> nega m) \<or> (\<not> nega n \<and> \<not> nega m) then ha_int_add x y
       else if nega n then ha_int_sub y x else ha_int_sub x y"
  have nv: "ha_int_valid ?new"
    using ha_int_add_correct(1) [OF v(1,2)] ha_int_sub_correct(1) [OF v(2,1)]
      ha_int_sub_correct(1) [OF v(1,2)] by simp
  have nval: "ha_int_value ?new
      = (if (nega n \<and> nega m) \<or> (\<not> nega n \<and> \<not> nega m) then ?X + ?Y
         else if nega n then ?Y - ?X else ?X - ?Y)"
    using ha_int_add_correct(2) [OF v(1,2)] ha_int_sub_correct(2) [OF v(2,1)]
      ha_int_sub_correct(2) [OF v(1,2)] by simp
  have znz: "?Z \<noteq> 0" using zpos by simp
  from ha_frac_create_correct [OF nv v(3) znz]
  obtain f0 where f0: "ha_frac_create (ha_int_to_str ?new) (ha_int_to_str z) = Some (Inr f0)"
    "ha_frac_valid f0" "ha_frac_value f0 = of_int (ha_int_value ?new) / of_int ?Z"
    by blast
  have eq: "ha_frac_add n m = Some (Inr (if nega n \<and> nega m then f0\<lparr>nega := True\<rparr> else f0))"
    unfolding ha_frac_add_def Let_def
    by (simp only: t f0(1) option.case sum.case prod.case)
  have vn: "ha_frac_value n = (if nega n then - ?A else ?A)"
    and vm: "ha_frac_value m = (if nega m then - ?C else ?C)"
    by (simp_all add: ha_frac_value_def)
  have A0: "0 \<le> ?A" and C0: "0 \<le> ?C"
    using bd ac by simp_all
  have sum: "(of_int (?X + ?Y) :: rat) / of_int ?Z = ?A + ?C"
    by (simp only: of_int_add add_divide_distrib qx qy)
  have d1: "(of_int (?Y - ?X) :: rat) / of_int ?Z = ?C - ?A"
    by (simp only: of_int_diff diff_divide_distrib qx qy)
  have d2: "(of_int (?X - ?Y) :: rat) / of_int ?Z = ?A - ?C"
    by (simp only: of_int_diff diff_divide_distrib qx qy)
  have fv: "ha_frac_value f0
      = (if (nega n \<and> nega m) \<or> (\<not> nega n \<and> \<not> nega m) then ?A + ?C
         else if nega n then ?C - ?A else ?A - ?C)"
    unfolding f0(3) nval
    by (cases "nega n"; cases "nega m") (simp_all only: sum d1 d2 simp_thms if_True if_False)
  show ?thesis
  proof (cases "nega n \<and> nega m")
    case True
    have "0 < ?a" using ns True ac(1) by simp
    then have "0 < ?A" using bd(1) by simp
    then have "0 < ha_frac_value f0"
      using C0 True by (simp add: fv)
    from ha_frac_force_negative [OF f0(2) this]
    have "ha_frac_valid (f0\<lparr>nega := True\<rparr>)"
      "ha_frac_value (f0\<lparr>nega := True\<rparr>) = - (?A + ?C)"
      using True by (simp_all add: fv)
    then show ?thesis
      using True by (simp add: eq vn vm)
  next
    case False
    have "ha_frac_value f0 = ha_frac_value n + ha_frac_value m"
      using False by (auto simp: fv vn vm)
    then show ?thesis
      using False f0(2) by (auto simp: eq)
  qed
qed

lemma ha_frac_sub_correct:
  assumes n: "ha_frac_valid n" and m: "ha_frac_valid m"
  shows "\<exists>f. ha_frac_sub n m = Some (Inr f) \<and> ha_frac_valid f
      \<and> ha_frac_value f = ha_frac_value n - ha_frac_value m"
proof -
  let ?m = "\<lparr>nega = (if \<not> nega m then True else False),
             nume = ha_int_copy (nume m), denom = ha_int_copy (denom m)\<rparr>"
  have w: "ha_frac_wf ?m"
    using m by (simp add: ha_frac_valid_def ha_frac_wf_def)
  have v: "ha_frac_value ?m = - ha_frac_value m"
    by (simp add: ha_frac_value_def)
  have ns: "nega n \<longrightarrow> ha_int_value (nume n) \<noteq> 0"
    using n by (auto simp: ha_frac_valid_def)
  from ha_frac_add_correct [OF ha_frac_valid_wf [OF n] ns w]
  show ?thesis
    unfolding ha_frac_sub_def Let_def v by simp
qed

lemma ha_frac_mult_correct:
  assumes n: "ha_frac_wf n" and m: "ha_frac_wf m"
  shows "\<exists>f. ha_frac_mult n m = Some (Inr f) \<and> ha_frac_valid f
      \<and> ha_frac_value f = ha_frac_value n * ha_frac_value m"
proof -
  let ?a = "ha_int_value (nume n)" and ?b = "ha_int_value (denom n)"
  let ?c = "ha_int_value (nume m)" and ?d = "ha_int_value (denom m)"
  define A where "A = (of_int ?a :: rat) / of_int ?b"
  define C where "C = (of_int ?c :: rat) / of_int ?d"
  let ?nn = "ha_int_mult (nume n) (nume m)" and ?nd = "ha_int_mult (denom n) (denom m)"
  have vn: "ha_int_valid (nume n)" "ha_int_valid (denom n)" "0 < ?b" "0 \<le> ?a"
    using n ha_frac_wf_nonneg [OF n] by (simp_all add: ha_frac_wf_def)
  have vm: "ha_int_valid (nume m)" "ha_int_valid (denom m)" "0 < ?d" "0 \<le> ?c"
    using m ha_frac_wf_nonneg [OF m] by (simp_all add: ha_frac_wf_def)
  have nn: "ha_int_valid ?nn" "ha_int_value ?nn = ?a * ?c"
    using ha_int_mult_correct [OF vn(1) vm(1)] by simp_all
  have nd: "ha_int_valid ?nd" "ha_int_value ?nd = ?b * ?d"
    using ha_int_mult_correct [OF vn(2) vm(2)] by simp_all
  have ndz: "ha_int_value ?nd \<noteq> 0"
    using vn(3) vm(3) by (simp add: nd(2))
  from ha_frac_create_correct [OF nn(1) nd(1) ndz]
  obtain f0 where f0: "ha_frac_create (ha_int_to_str ?nn) (ha_int_to_str ?nd) = Some (Inr f0)"
    "ha_frac_valid f0" "ha_frac_value f0 = of_int (?a * ?c) / of_int (?b * ?d)"
    unfolding nn(2) nd(2) by blast
  have fv: "ha_frac_value f0 = A * C"
    by (simp add: f0(3) A_def C_def)
  have A0: "0 \<le> A" and C0: "0 \<le> C"
    using vn vm by (simp_all add: A_def C_def)
  have Az: "A = 0 \<longleftrightarrow> ?a = 0" and Cz: "C = 0 \<longleftrightarrow> ?c = 0"
    using vn(3) vm(3) by (simp_all add: A_def C_def)
  have sg: "ha_int_sign (nume n) = 0 \<longleftrightarrow> ?a = 0" "ha_int_sign (nume m) = 0 \<longleftrightarrow> ?c = 0"
    using vn(1) vm(1) by (simp_all add: ha_int_sign_eq sgn_if)
  define pos where "pos \<longleftrightarrow> nega n = nega m \<or> ?a = 0 \<or> ?c = 0"
  have eq: "ha_frac_mult n m = Some (Inr (if pos then f0\<lparr>nega := False\<rparr> else f0\<lparr>nega := True\<rparr>))"
    unfolding ha_frac_mult_def Let_def pos_def
    by (simp only: f0(1) sg option.case sum.case)
  have vnv: "ha_frac_value n = (if nega n then - A else A)"
    and vmv: "ha_frac_value m = (if nega m then - C else C)"
    by (simp_all add: ha_frac_value_def A_def C_def)
  show ?thesis
  proof (cases pos)
    case True
    have "0 \<le> ha_frac_value f0"
      using A0 C0 by (simp add: fv)
    then have "f0\<lparr>nega := False\<rparr> = f0"
      using f0(2) by (intro ha_frac_force_positive)
    moreover have "ha_frac_value n * ha_frac_value m = A * C"
      using True Az Cz unfolding pos_def vnv vmv by auto
    ultimately show ?thesis
      using True f0(2) by (simp add: eq fv)
  next
    case False
    then have nz: "?a \<noteq> 0" "?c \<noteq> 0" and df: "nega n \<noteq> nega m"
      by (auto simp: pos_def)
    have "0 < A" "0 < C"
      using nz A0 C0 Az Cz by (simp_all add: order_le_less)
    then have "0 < ha_frac_value f0"
      by (simp add: fv)
    from ha_frac_force_negative [OF f0(2) this]
    have "ha_frac_valid (f0\<lparr>nega := True\<rparr>)" "ha_frac_value (f0\<lparr>nega := True\<rparr>) = - (A * C)"
      by (simp_all add: fv)
    moreover have "ha_frac_value n * ha_frac_value m = - (A * C)"
      using df unfolding vnv vmv by auto
    ultimately show ?thesis
      using False by (simp add: eq)
  qed
qed

lemma ha_frac_div_zero:
  "ha_int_sign (nume m) = 0 \<Longrightarrow> ha_frac_div n m = Some (Inl Abort)"
  by (simp add: ha_frac_div_def)

lemma ha_frac_div_correct:
  assumes n: "ha_frac_valid n" and m: "ha_frac_valid m" and nz: "ha_int_value (nume m) \<noteq> 0"
  shows "\<exists>f. ha_frac_div n m = Some (Inr f) \<and> ha_frac_valid f
      \<and> ha_frac_value f = ha_frac_value n / ha_frac_value m"
proof -
  let ?r = "\<lparr>nega = nega m, nume = ha_int_copy (denom m), denom = ha_int_copy (nume m)\<rparr>"
  have vm: "ha_int_valid (nume m)" "ha_int_valid (denom m)" "sign (nume m)" "sign (denom m)"
    using m by (simp_all add: ha_frac_valid_def)
  have "0 \<le> ha_int_value (nume m)"
    using vm(1,3) by (simp add: ha_int_value_sign)
  then have pos: "0 < ha_int_value (nume m)"
    using nz by simp
  have w: "ha_frac_wf ?r"
    using vm pos by (simp add: ha_frac_wf_def)
  have v: "ha_frac_value ?r = 1 / ha_frac_value m"
    by (simp add: ha_frac_value_def)
  have sg: "ha_int_sign (nume m) \<noteq> 0"
    using vm(1) nz by (simp add: ha_int_sign_eq sgn_if)
  from ha_frac_mult_correct [OF ha_frac_valid_wf [OF n] w]
  show ?thesis
    unfolding ha_frac_div_def Let_def v using sg by simp
qed

lemma ha_frac_cmp_correct:
  assumes n: "ha_frac_valid n" and m: "ha_frac_valid m"
  shows "ha_frac_cmp n m
      = Some (Inr (if ha_frac_value n < ha_frac_value m then - 1
                   else if ha_frac_value n = ha_frac_value m then 0 else 1))"
proof -
  from ha_frac_sub_correct [OF n m]
  obtain f where f: "ha_frac_sub n m = Some (Inr f)" "ha_frac_valid f"
    "ha_frac_value f = ha_frac_value n - ha_frac_value m"
    by blast
  have vf: "ha_int_valid (nume f)"
    using f(2) by (simp add: ha_frac_valid_def)
  have a: "nega f \<longleftrightarrow> ha_frac_value n < ha_frac_value m"
    using ha_frac_valid_sign(1) [OF f(2)] by (simp add: f(3))
  have "ha_int_sign (nume f) = 0 \<longleftrightarrow> ha_int_value (nume f) = 0"
    using vf by (simp add: ha_int_sign_eq sgn_if)
  then have b: "ha_int_sign (nume f) = 0 \<longleftrightarrow> ha_frac_value n = ha_frac_value m"
    using ha_frac_valid_sign(2) [OF f(2)] by (simp add: f(3))
  show ?thesis
    unfolding ha_frac_cmp_def f(1) using a b by simp
qed


lemma ha_frac_create_strings:
  assumes a: "ha_int_create a = Inr na" and b: "ha_int_create b = Inr nb"
    and nz: "ha_int_value nb \<noteq> 0"
  shows "\<exists>f. ha_frac_create a b = Some (Inr f) \<and> ha_frac_valid f
      \<and> ha_frac_value f = of_int (ha_int_value na) / of_int (ha_int_value nb)"
proof -
  have v: "ha_int_valid na" "ha_int_valid nb"
    using a b by (simp_all add: ha_int_create_valid)
  have s: "ha_int_to_str na = a" "ha_int_to_str nb = b"
    using a b by (simp_all add: ha_int_to_str_create)
  show ?thesis
    using ha_frac_create_correct [OF v nz] by (simp add: s)
qed

lemma ha_frac_create_returned:
  assumes "ha_frac_create a b = Some (Inr f)"
  shows "ha_frac_valid f"
proof -
  obtain na where na: "ha_int_create a = Inr na"
    using assms by (cases "ha_int_create a") (simp_all add: ha_frac_create_def)
  obtain nb where nb: "ha_int_create b = Inr nb"
    using assms na by (cases "ha_int_create b") (simp_all add: ha_frac_create_def)
  have sg: "ha_int_sign nb \<noteq> 0"
    using assms na nb by (auto simp: ha_frac_create_def split: if_splits)
  have "ha_int_valid nb" using nb by (rule ha_int_create_valid)
  then have "ha_int_value nb \<noteq> 0"
    using sg by (auto simp: ha_int_sign_eq)
  from ha_frac_create_strings [OF na nb this] assms
  show ?thesis by auto
qed


lemma ha_frac_value_inj:
  assumes p: "ha_frac_valid p" and q: "ha_frac_valid q" and e: "ha_frac_value p = ha_frac_value q"
  shows "p = q"
proof -
  let ?a = "ha_int_value (nume p)" and ?b = "ha_int_value (denom p)"
  let ?c = "ha_int_value (nume q)" and ?d = "ha_int_value (denom q)"
  have vp: "ha_int_valid (nume p)" "ha_int_valid (denom p)" "0 < ?b" "gcd ?a ?b = 1" "sign (nume p)"
    using p by (simp_all add: ha_frac_valid_def)
  have vq: "ha_int_valid (nume q)" "ha_int_valid (denom q)" "0 < ?d" "gcd ?c ?d = 1" "sign (nume q)"
    using q by (simp_all add: ha_frac_valid_def)
  have a0: "0 \<le> ?a" and c0: "0 \<le> ?c"
    using vp(1,5) vq(1,5) by (simp_all add: ha_int_value_sign)
  have ng: "nega p = nega q"
    using ha_frac_valid_sign(1) [OF p] ha_frac_valid_sign(1) [OF q] e by simp
  then have "(of_int ?a :: rat) / of_int ?b = of_int ?c / of_int ?d"
    using e by (simp add: ha_frac_value_def split: if_splits)
  then have "(of_int ?a :: rat) * of_int ?d = of_int ?c * of_int ?b"
    using vp(3) vq(3) by (simp add: frac_eq_eq)
  then have "(of_int (?a * ?d) :: rat) = of_int (?c * ?b)"
    by (simp only: of_int_mult)
  then have x: "?a * ?d = ?c * ?b"
    by (simp only: of_int_eq_iff)
  have "coprime ?a ?b" "coprime ?d ?c"
    using vp(4) vq(4) by (simp_all add: coprime_iff_gcd_eq_1 gcd.commute)
  then have "\<bar>?a\<bar> * \<bar>?d\<bar> = \<bar>?c\<bar> * \<bar>?b\<bar> \<longleftrightarrow> \<bar>?a\<bar> = \<bar>?c\<bar> \<and> \<bar>?d\<bar> = \<bar>?b\<bar>"
    using coprime_crossproduct_int [of ?a ?b ?c ?d] by (simp add: coprime_commute)
  moreover have "\<bar>?a\<bar> * \<bar>?d\<bar> = \<bar>?c\<bar> * \<bar>?b\<bar>"
    using x by (simp only: abs_mult [symmetric])
  ultimately have "?a = ?c" "?b = ?d"
    using a0 c0 vp(3) vq(3) by simp_all
  then have "nume p = nume q" "denom p = denom q"
    using vp(1,2) vq(1,2) by (auto intro: ha_int_value_inj)
  then show ?thesis
    using ng by simp
qed

section \<open>The claims\<close>

text \<open>
  C3: for every input string \<open>s\<close>, \<open>ha_int_create\<close> (BigInt.parse) produces a value if and
  only if \<open>s\<close> is an optional leading minus sign followed by one or more decimal digits, with
  no superfluous leading zeros, and is not \<open>"-0"\<close>; on every other string it fails with
  \<open>ParseError\<close> and produces no value.  In particular \<open>"-0"\<close> is a \<open>ParseError\<close>.
\<close>

theorem ha_int_create_accepts_exactly_valid_decimal:
  "(valid_decimal s \<longleftrightarrow> (\<exists>v. ha_int_create s = Inr v))
   \<and> (\<not> valid_decimal s \<longrightarrow> ha_int_create s = Inl ParseError)
   \<and> ha_int_create ''-0'' = Inl ParseError"
proof -
  have "ha_int_create ''-0'' = Inl ParseError"
    by (simp add: ha_int_create_def)
  then show ?thesis
    by (simp add: ha_int_create_eq)
qed

theorem ha_int_create_accepts_exactly_valid_decimal_witness:
  "valid_decimal ''-12'' \<and> (\<exists>v. ha_int_create ''-12'' = Inr v)
   \<and> \<not> valid_decimal ''007'' \<and> ha_int_create ''007'' = Inl ParseError"
proof -
  have a: "valid_decimal ''-12''"
    by (simp add: valid_decimal_def digit_char_def)
  have b: "\<not> valid_decimal ''007''"
    by (simp add: valid_decimal_def digit_char_def)
  show ?thesis
    using a b ha_int_create_accepts_exactly_valid_decimal [of "''-12''"]
      ha_int_create_accepts_exactly_valid_decimal [of "''007''"]
    by blast
qed

text \<open>
  C4: for every decimal string \<open>s\<close> that \<open>ha_int_create\<close> accepts, printing the parsed value
  with \<open>ha_int_to_str\<close> gives back \<open>s\<close>.  The printed form of every well-formed BigInt \<open>w\<close>
  (in particular of every value the parser produces) is canonical, that is a valid decimal
  string, with \<open>"0"\<close> for zero, and parsing it gives back \<open>w\<close>: printing is the exact inverse
  of parsing.
\<close>

theorem ha_int_to_str_inverse_of_create:
  "(ha_int_create s = Inr v \<longrightarrow> ha_int_to_str v = s \<and> ha_int_valid v)
   \<and> (ha_int_valid w \<longrightarrow> valid_decimal (ha_int_to_str w) \<and> ha_int_create (ha_int_to_str w) = Inr w)
   \<and> (ha_int_valid w \<and> ha_int_value w = 0 \<longrightarrow> ha_int_to_str w = ''0'')"
proof -
  have "ha_int_to_str w = ''0''" if "ha_int_valid w" "ha_int_value w = 0"
  proof -
    have "digits_ok ''0''"
      by (simp add: digits_ok_def)
    moreover have "dval (digits w) = dval ''0''"
      using that(2) by (simp add: ha_int_value_def split: if_splits)
    ultimately have "digits w = ''0''"
      using that(1) by (intro digits_ok_unique) (simp_all add: ha_int_valid_def)
    then show ?thesis
      using that(1) by (auto simp: ha_int_to_str_eq ha_int_valid_def)
  qed
  then show ?thesis
    using ha_int_to_str_create ha_int_create_valid valid_decimal_to_str by blast
qed

theorem ha_int_to_str_inverse_of_create_witness:
  "ha_int_create ''-123'' = Inr \<lparr>sign = False, digits = ''321''\<rparr>
   \<and> ha_int_to_str \<lparr>sign = False, digits = ''321''\<rparr> = ''-123''
   \<and> ha_int_valid \<lparr>sign = True, digits = ''0''\<rparr>
   \<and> ha_int_value \<lparr>sign = True, digits = ''0''\<rparr> = 0
   \<and> ha_int_to_str \<lparr>sign = True, digits = ''0''\<rparr> = ''0''
   \<and> ha_int_create (ha_int_to_str \<lparr>sign = True, digits = ''0''\<rparr>) = Inr \<lparr>sign = True, digits = ''0''\<rparr>"
proof -
  have a: "ha_int_create ''-123'' = Inr \<lparr>sign = False, digits = ''321''\<rparr>"
    by (simp add: ha_int_create_def)
  have b: "ha_int_valid \<lparr>sign = True, digits = ''0''\<rparr>"
    by (simp add: ha_int_valid_def digits_ok_def)
  have c: "ha_int_value \<lparr>sign = True, digits = ''0''\<rparr> = 0"
    by (simp add: ha_int_value_def)
  show ?thesis
    using a b c
      ha_int_to_str_inverse_of_create [of "''-123''" "\<lparr>sign = False, digits = ''321''\<rparr>"
        "\<lparr>sign = True, digits = ''0''\<rparr>"]
    by blast
qed


text \<open>
  C1: for every well-formed BigInt \<open>n\<close> and every well-formed non-zero BigInt \<open>m\<close>,
  \<open>ha_int_quotient\<close> and \<open>ha_int_remainder\<close> return values \<open>q\<close> and \<open>r\<close>, the remainder
  is computed as \<open>n - m * q\<close> by re-using quotient, multiply and subtract, and the division
  identity holds exactly: \<open>n\<close> equals \<open>add (multiply m q) r\<close>.
\<close>

theorem division_identity:
  assumes "ha_int_valid n" "ha_int_valid m" "\<not> is_zero m"
  shows "\<exists>q r. ha_int_quotient n m = Some (Inr q) \<and> ha_int_remainder n m = Some (Inr r)
      \<and> r = ha_int_sub n (ha_int_mult m q)
      \<and> ha_int_eq n (ha_int_add (ha_int_mult m q) r)"
proof -
  have nz: "ha_int_value m \<noteq> 0"
    using assms(2,3) by (simp add: is_zero_iff)
  from ha_int_remainder_correct [OF assms(1,2) nz]
  obtain q where q: "ha_int_quotient n m = Some (Inr q)" "ha_int_valid q"
    "ha_int_value q = ha_int_value n sdiv ha_int_value m"
    "ha_int_remainder n m = Some (Inr (ha_int_sub n (ha_int_mult m q)))"
    "ha_int_valid (ha_int_sub n (ha_int_mult m q))"
    "ha_int_value (ha_int_sub n (ha_int_mult m q)) = ha_int_value n smod ha_int_value m"
    by blast
  let ?r = "ha_int_sub n (ha_int_mult m q)"
  have mq: "ha_int_valid (ha_int_mult m q)"
    "ha_int_value (ha_int_mult m q) = ha_int_value m * ha_int_value q"
    using ha_int_mult_correct [OF assms(2) q(2)] by simp_all
  have s: "ha_int_valid (ha_int_add (ha_int_mult m q) ?r)"
    "ha_int_value (ha_int_add (ha_int_mult m q) ?r) = ha_int_value n"
    using ha_int_add_correct [OF mq(1) q(5)]
    by (simp_all add: mq(2) q(3,6) mult_sdiv_smod_eq)
  have "n = ha_int_add (ha_int_mult m q) ?r"
    using assms(1) s by (intro ha_int_value_inj) simp_all
  then have "ha_int_eq n (ha_int_add (ha_int_mult m q) ?r)"
    by (simp add: ha_int_eq_iff)
  then show ?thesis
    using q(1,4) by blast
qed

theorem division_identity_witness:
  "ha_int_valid \<lparr>sign = False, digits = ''7''\<rparr> \<and> ha_int_valid \<lparr>sign = True, digits = ''2''\<rparr>
   \<and> \<not> is_zero \<lparr>sign = True, digits = ''2''\<rparr>
   \<and> (\<exists>q r. ha_int_quotient \<lparr>sign = False, digits = ''7''\<rparr> \<lparr>sign = True, digits = ''2''\<rparr> = Some (Inr q)
        \<and> ha_int_remainder \<lparr>sign = False, digits = ''7''\<rparr> \<lparr>sign = True, digits = ''2''\<rparr> = Some (Inr r)
        \<and> r = ha_int_sub \<lparr>sign = False, digits = ''7''\<rparr> (ha_int_mult \<lparr>sign = True, digits = ''2''\<rparr> q)
        \<and> ha_int_eq \<lparr>sign = False, digits = ''7''\<rparr>
             (ha_int_add (ha_int_mult \<lparr>sign = True, digits = ''2''\<rparr> q) r))"
proof -
  have a: "ha_int_valid \<lparr>sign = False, digits = ''7''\<rparr>"
    by code_simp
  have b: "ha_int_valid \<lparr>sign = True, digits = ''2''\<rparr>"
    by code_simp
  have c: "\<not> is_zero \<lparr>sign = True, digits = ''2''\<rparr>"
    by code_simp
  show ?thesis
    using a b c division_identity [OF a b c] by blast
qed

text \<open>
  C5 (as amended): BigInt division truncates toward zero: the quotient is a well-formed BigInt
  of value \<open>sgn n * sgn m * (|n| div |m|)\<close>.  Its sign follows the sign rule of
  multiplication (\<open>mult_div_sign\<close>) whenever \<open>|n| \<ge> |m|\<close>; when \<open>|n| < |m|\<close> the code
  takes its explicit zero branch and the quotient is the non-negative zero whatever the signs
  of the operands.  For the parsed operands \<open>"-7"\<close> and \<open>"2"\<close> the quotient prints as
  \<open>"-3"\<close> (not \<open>"-4"\<close>) and the remainder as \<open>"-1"\<close>, and these two results satisfy the
  division identity.
\<close>

theorem quotient_truncates_toward_zero:
  "(ha_int_valid n \<and> ha_int_valid m \<and> \<not> is_zero m \<longrightarrow>
      (\<exists>q. ha_int_quotient n m = Some (Inr q) \<and> ha_int_valid q
        \<and> ha_int_value q = sgn (ha_int_value n) * sgn (ha_int_value m)
              * (\<bar>ha_int_value n\<bar> div \<bar>ha_int_value m\<bar>)
        \<and> sign q = (if abs_gt m n then True else mult_div_sign n m)
        \<and> (abs_gt m n \<longleftrightarrow> \<bar>ha_int_value n\<bar> < \<bar>ha_int_value m\<bar>)))
   \<and> (\<exists>n7 two q r. ha_int_create ''-7'' = Inr n7 \<and> ha_int_create ''2'' = Inr two
        \<and> ha_int_quotient n7 two = Some (Inr q) \<and> ha_int_to_str q = ''-3''
        \<and> ha_int_remainder n7 two = Some (Inr r) \<and> ha_int_to_str r = ''-1''
        \<and> ha_int_eq n7 (ha_int_add (ha_int_mult two q) r))"
proof (intro conjI impI)
  assume a: "ha_int_valid n \<and> ha_int_valid m \<and> \<not> is_zero m"
  then have n: "ha_int_valid n" and m: "ha_int_valid m"
    by simp_all
  have nz: "ha_int_value m \<noteq> 0"
    using a m by (simp add: is_zero_iff)
  from ha_int_quotient_correct [OF n m nz]
  obtain q where q: "ha_int_quotient n m = Some (Inr q)" "ha_int_valid q"
    "ha_int_value q = ha_int_value n sdiv ha_int_value m"
    by blast
  define D where "D = \<bar>ha_int_value n\<bar> div \<bar>ha_int_value m\<bar>"
  have v: "ha_int_value q = sgn (ha_int_value n) * sgn (ha_int_value m) * D"
    by (simp add: q(3) signed_divide_int_def D_def)
  have gt: "abs_gt m n \<longleftrightarrow> \<bar>ha_int_value n\<bar> < \<bar>ha_int_value m\<bar>"
    using abs_gt_iff [of m n] n m
    by (simp add: ha_int_valid_digits ha_int_value_abs)
  have D0: "0 \<le> D"
    using nz by (simp add: D_def pos_imp_zdiv_nonneg_iff)
  have sq: "sign q = (if abs_gt m n then True else mult_div_sign n m)"
  proof (cases "abs_gt m n")
    case True
    then have "D = 0"
      using gt by (simp add: D_def div_pos_pos_trivial)
    then have "ha_int_value q = 0" by (simp add: v)
    then show ?thesis
      using True ha_int_value_sign [OF q(2)] by simp
  next
    case False
    then have le: "\<bar>ha_int_value m\<bar> \<le> \<bar>ha_int_value n\<bar>"
      using gt by simp
    then have n0: "ha_int_value n \<noteq> 0"
      using nz by auto
    have "0 < \<bar>ha_int_value m\<bar>" using nz by simp
    then have D: "0 < D"
      using le by (simp add: D_def pos_imp_zdiv_pos_iff)
    have sn: "sgn (ha_int_value n) = (if sign n then 1 else - 1)"
      using n0 ha_int_value_sign [OF n] by (auto simp: sgn_if)
    have sm: "sgn (ha_int_value m) = (if sign m then 1 else - 1)"
      using nz ha_int_value_sign [OF m] by (auto simp: sgn_if)
    have "ha_int_value q = (if sign n = sign m then D else - D)"
      unfolding v sn sm by simp
    then have "sign q \<longleftrightarrow> sign n = sign m"
      using D ha_int_value_sign [OF q(2)] by (simp split: if_splits)
    moreover have "mult_div_sign n m \<longleftrightarrow> sign n = sign m"
      using mult_div_sign_iff [OF n m] n0 nz by simp
    ultimately show ?thesis using False by simp
  qed
  show "\<exists>q. ha_int_quotient n m = Some (Inr q) \<and> ha_int_valid q
        \<and> ha_int_value q = sgn (ha_int_value n) * sgn (ha_int_value m)
              * (\<bar>ha_int_value n\<bar> div \<bar>ha_int_value m\<bar>)
        \<and> sign q = (if abs_gt m n then True else mult_div_sign n m)
        \<and> (abs_gt m n \<longleftrightarrow> \<bar>ha_int_value n\<bar> < \<bar>ha_int_value m\<bar>)"
    using q(1,2) v sq gt unfolding D_def by blast
next
  let ?n7 = "\<lparr>sign = False, digits = ''7''\<rparr>" and ?two = "\<lparr>sign = True, digits = ''2''\<rparr>"
  let ?q = "\<lparr>sign = False, digits = ''3''\<rparr>" and ?r = "\<lparr>sign = False, digits = ''1''\<rparr>"
  have "ha_int_create ''-7'' = Inr ?n7" "ha_int_create ''2'' = Inr ?two"
    by code_simp+
  moreover have "ha_int_quotient ?n7 ?two = Some (Inr ?q)" "ha_int_to_str ?q = ''-3''"
    by code_simp+
  moreover have "ha_int_remainder ?n7 ?two = Some (Inr ?r)" "ha_int_to_str ?r = ''-1''"
    by code_simp+
  moreover have "ha_int_eq ?n7 (ha_int_add (ha_int_mult ?two ?q) ?r)"
    by code_simp
  ultimately show "\<exists>n7 two q r. ha_int_create ''-7'' = Inr n7 \<and> ha_int_create ''2'' = Inr two
        \<and> ha_int_quotient n7 two = Some (Inr q) \<and> ha_int_to_str q = ''-3''
        \<and> ha_int_remainder n7 two = Some (Inr r) \<and> ha_int_to_str r = ''-1''
        \<and> ha_int_eq n7 (ha_int_add (ha_int_mult two q) r)"
    by blast
qed

theorem quotient_truncates_toward_zero_witness:
  "ha_int_valid \<lparr>sign = False, digits = ''7''\<rparr> \<and> ha_int_valid \<lparr>sign = True, digits = ''2''\<rparr>
   \<and> \<not> is_zero \<lparr>sign = True, digits = ''2''\<rparr>
   \<and> \<not> abs_gt \<lparr>sign = True, digits = ''2''\<rparr> \<lparr>sign = False, digits = ''7''\<rparr>
   \<and> \<not> mult_div_sign \<lparr>sign = False, digits = ''7''\<rparr> \<lparr>sign = True, digits = ''2''\<rparr>
   \<and> (\<exists>q. ha_int_quotient \<lparr>sign = False, digits = ''7''\<rparr> \<lparr>sign = True, digits = ''2''\<rparr> = Some (Inr q)
        \<and> ha_int_valid q \<and> ha_int_value q = - 3 \<and> \<not> sign q)"
proof -
  let ?n7 = "\<lparr>sign = False, digits = ''7''\<rparr>" and ?two = "\<lparr>sign = True, digits = ''2''\<rparr>"
  have a: "ha_int_valid ?n7" "ha_int_valid ?two" "\<not> is_zero ?two"
    by code_simp+
  have g: "\<not> abs_gt ?two ?n7" "\<not> mult_div_sign ?n7 ?two"
    by code_simp+
  have v: "ha_int_value ?n7 = - 7" "ha_int_value ?two = 2"
    by (simp_all add: ha_int_value_def dig_def)
  from quotient_truncates_toward_zero [of ?n7 ?two] a
  obtain q where q: "ha_int_quotient ?n7 ?two = Some (Inr q)" "ha_int_valid q"
    "ha_int_value q = sgn (ha_int_value ?n7) * sgn (ha_int_value ?two)
        * (\<bar>ha_int_value ?n7\<bar> div \<bar>ha_int_value ?two\<bar>)"
    "sign q = (if abs_gt ?two ?n7 then True else mult_div_sign ?n7 ?two)"
    by blast
  have "ha_int_value q = - 3"
    unfolding q(3) v by simp
  moreover have "\<not> sign q"
    using q(4) g by simp
  ultimately show ?thesis
    using a g q(1,2) by blast
qed

text \<open>
  The sign rule of multiplication alone does not give the quotient's sign: for \<open>-7\<close> divided
  by \<open>12\<close> the rule applied to the operands says negative, and \<open>ha_int_quotient\<close> returns
  the non-negative zero.
\<close>

theorem quotient_sign_rule_counterexample:
  "ha_int_quotient \<lparr>sign = False, digits = ''7''\<rparr> \<lparr>sign = True, digits = ''21''\<rparr>
      = Some (Inr \<lparr>sign = True, digits = ''0''\<rparr>)
   \<and> mult_div_sign \<lparr>sign = False, digits = ''7''\<rparr> \<lparr>sign = True, digits = ''21''\<rparr> = False
   \<and> sign \<lparr>sign = True, digits = ''0''\<rparr>
        \<noteq> mult_div_sign \<lparr>sign = False, digits = ''7''\<rparr> \<lparr>sign = True, digits = ''21''\<rparr>"
proof -
  have "ha_int_quotient \<lparr>sign = False, digits = ''7''\<rparr> \<lparr>sign = True, digits = ''21''\<rparr>
      = Some (Inr \<lparr>sign = True, digits = ''0''\<rparr>)"
    by code_simp
  moreover have "mult_div_sign \<lparr>sign = False, digits = ''7''\<rparr> \<lparr>sign = True, digits = ''21''\<rparr> = False"
    by code_simp
  ultimately show ?thesis by simp
qed

text \<open>
  C10 (implicit): for every well-formed BigInt \<open>n\<close> and well-formed non-zero BigInt \<open>m\<close>,
  \<open>ha_int_remainder\<close> returns the remainder of the division truncated toward zero (the
  semantics of C's \<open>%\<close>): its value is \<open>sgn n * (|n| mod |m|)\<close>, which is \<open>n - m * q\<close> for
  the truncated quotient \<open>q\<close>.  Hence it is either zero or carries the sign of the dividend
  \<open>n\<close>, and its magnitude is strictly less than the magnitude of \<open>m\<close>; when \<open>|n| < |m|\<close>
  the quotient is the canonical non-negative zero and the remainder equals \<open>n\<close>, whatever
  the signs of the operands.
\<close>

theorem remainder_sign_and_bound:
  assumes "ha_int_valid n" "ha_int_valid m" "\<not> is_zero m"
  shows "\<exists>q r. ha_int_quotient n m = Some (Inr q) \<and> ha_int_remainder n m = Some (Inr r)
      \<and> ha_int_valid q \<and> ha_int_valid r
      \<and> ha_int_value q = sgn (ha_int_value n) * sgn (ha_int_value m)
            * (\<bar>ha_int_value n\<bar> div \<bar>ha_int_value m\<bar>)
      \<and> ha_int_value r = sgn (ha_int_value n) * (\<bar>ha_int_value n\<bar> mod \<bar>ha_int_value m\<bar>)
      \<and> ha_int_value r = ha_int_value n - ha_int_value m * ha_int_value q
      \<and> (ha_int_value r = 0 \<or> sign r = sign n)
      \<and> \<bar>ha_int_value r\<bar> < \<bar>ha_int_value m\<bar>
      \<and> (\<bar>ha_int_value n\<bar> < \<bar>ha_int_value m\<bar> \<longrightarrow> q = \<lparr>sign = True, digits = ''0''\<rparr> \<and> r = n)"
proof -
  have nz: "ha_int_value m \<noteq> 0"
    using assms(2,3) by (simp add: is_zero_iff)
  from ha_int_remainder_correct [OF assms(1,2) nz]
  obtain q where q: "ha_int_quotient n m = Some (Inr q)" "ha_int_valid q"
    "ha_int_value q = ha_int_value n sdiv ha_int_value m"
    "ha_int_remainder n m = Some (Inr (ha_int_sub n (ha_int_mult m q)))"
    "ha_int_valid (ha_int_sub n (ha_int_mult m q))"
    "ha_int_value (ha_int_sub n (ha_int_mult m q)) = ha_int_value n smod ha_int_value m"
    by blast
  let ?r = "ha_int_sub n (ha_int_mult m q)"
  let ?vn = "ha_int_value n" and ?vm = "ha_int_value m"
  have qv: "ha_int_value q = sgn ?vn * sgn ?vm * (\<bar>?vn\<bar> div \<bar>?vm\<bar>)"
    by (simp add: q(3) signed_divide_int_def)
  have rv: "ha_int_value ?r = sgn ?vn * (\<bar>?vn\<bar> mod \<bar>?vm\<bar>)"
    by (simp add: q(6) signed_modulo_int_def)
  have rq: "ha_int_value ?r = ?vn - ?vm * ha_int_value q"
    unfolding q(6) q(3) by (simp add: minus_mult_sdiv_eq_smod)
  have md: "0 \<le> \<bar>?vn\<bar> mod \<bar>?vm\<bar>" "\<bar>?vn\<bar> mod \<bar>?vm\<bar> < \<bar>?vm\<bar>"
    using nz by simp_all
  have bound: "\<bar>ha_int_value ?r\<bar> < \<bar>?vm\<bar>"
    using md nz by (simp add: rv abs_mult sgn_if)
  have sg: "ha_int_value ?r = 0 \<or> sign ?r = sign n"
    using md(1) ha_int_value_sign [OF q(5)] ha_int_value_sign [OF assms(1)]
    by (auto simp: rv sgn_if zero_le_mult_iff split: if_splits)
  have small: "q = \<lparr>sign = True, digits = ''0''\<rparr> \<and> ?r = n" if "\<bar>?vn\<bar> < \<bar>?vm\<bar>"
  proof -
    have "ha_int_value q = 0"
      using that by (simp add: q(3) signed_divide_int_def div_pos_pos_trivial)
    then have "q = \<lparr>sign = True, digits = ''0''\<rparr>"
      using q(2) ha_int_valid_zero by (intro ha_int_value_inj) simp_all
    moreover have "ha_int_value ?r = ?vn"
      using that by (simp add: rv mod_pos_pos_trivial sgn_if)
    then have "?r = n"
      using q(5) assms(1) by (intro ha_int_value_inj) simp_all
    ultimately show ?thesis by simp
  qed
  show ?thesis
    using q(1,2,4,5) qv rv rq bound sg small by blast
qed

theorem remainder_sign_and_bound_witness:
  "ha_int_valid \<lparr>sign = False, digits = ''7''\<rparr> \<and> ha_int_valid \<lparr>sign = True, digits = ''2''\<rparr>
   \<and> \<not> is_zero \<lparr>sign = True, digits = ''2''\<rparr>
   \<and> (\<exists>r. ha_int_remainder \<lparr>sign = False, digits = ''7''\<rparr> \<lparr>sign = True, digits = ''2''\<rparr>
          = Some (Inr r) \<and> ha_int_valid r \<and> ha_int_value r = - 1)
   \<and> ha_int_valid \<lparr>sign = True, digits = ''21''\<rparr> \<and> \<not> is_zero \<lparr>sign = True, digits = ''21''\<rparr>
   \<and> \<bar>ha_int_value \<lparr>sign = False, digits = ''7''\<rparr>\<bar> < \<bar>ha_int_value \<lparr>sign = True, digits = ''21''\<rparr>\<bar>
   \<and> ha_int_quotient \<lparr>sign = False, digits = ''7''\<rparr> \<lparr>sign = True, digits = ''21''\<rparr>
        = Some (Inr \<lparr>sign = True, digits = ''0''\<rparr>)
   \<and> ha_int_remainder \<lparr>sign = False, digits = ''7''\<rparr> \<lparr>sign = True, digits = ''21''\<rparr>
        = Some (Inr \<lparr>sign = False, digits = ''7''\<rparr>)"
proof -
  let ?n = "\<lparr>sign = False, digits = ''7''\<rparr>" and ?m = "\<lparr>sign = True, digits = ''21''\<rparr>"
  let ?two = "\<lparr>sign = True, digits = ''2''\<rparr>"
  have a: "ha_int_valid ?n" "ha_int_valid ?m" "\<not> is_zero ?m"
    by code_simp+
  have c: "ha_int_valid ?two" "\<not> is_zero ?two"
    by code_simp+
  have v: "ha_int_value ?n = - 7" "ha_int_value ?m = 12" "ha_int_value ?two = 2"
    by (simp_all add: ha_int_value_def dig_def)
  have b: "\<bar>ha_int_value ?n\<bar> < \<bar>ha_int_value ?m\<bar>"
    by (simp add: v)
  from remainder_sign_and_bound [OF a(1) c]
  obtain r where r: "ha_int_remainder ?n ?two = Some (Inr r)" "ha_int_valid r"
    "ha_int_value r = sgn (ha_int_value ?n) * (\<bar>ha_int_value ?n\<bar> mod \<bar>ha_int_value ?two\<bar>)"
    by blast
  have "ha_int_value r = - 1"
    unfolding r(3) v by simp
  then have d: "\<exists>r. ha_int_remainder ?n ?two = Some (Inr r) \<and> ha_int_valid r \<and> ha_int_value r = - 1"
    using r(1,2) by blast
  have e: "ha_int_quotient ?n ?m = Some (Inr \<lparr>sign = True, digits = ''0''\<rparr>)
      \<and> ha_int_remainder ?n ?m = Some (Inr ?n)"
    using b remainder_sign_and_bound [OF a] by auto
  show ?thesis
    using a b c d e by blast
qed

text \<open>
  C9: for every pair of strictly positive well-formed BigInts, the recursive Euclidean
  \<open>get_gcd small big\<close> used by the reduction of fractions terminates and returns the
  greatest common divisor.  It computes \<open>small\<close> at once when \<open>big mod small = 0\<close>, and
  otherwise calls itself on \<open>(big mod small, small)\<close>, whose first argument is again
  strictly positive (never zero) and smaller than \<open>small\<close>.  In particular
  \<open>get_gcd a a\<close> and \<open>get_gcd 1 n\<close> return without a recursive call.
\<close>

theorem get_gcd_terminates_with_gcd:
  assumes "ha_int_valid small" "ha_int_valid big"
    "0 < ha_int_value small" "0 < ha_int_value big"
  shows "(\<exists>g. get_gcd small big = Some (Inr g) \<and> ha_int_valid g
          \<and> ha_int_value g = gcd (ha_int_value small) (ha_int_value big))
    \<and> (\<exists>remain. ha_int_remainder big small = Some (Inr remain) \<and> ha_int_valid remain
          \<and> ha_int_value remain = ha_int_value big mod ha_int_value small
          \<and> (ha_int_value remain = 0 \<longrightarrow> get_gcd small big = Some (Inr small))
          \<and> (ha_int_value remain \<noteq> 0 \<longrightarrow>
                get_gcd small big = get_gcd remain small
                \<and> 0 < ha_int_value remain \<and> ha_int_value remain < ha_int_value small))
    \<and> (\<exists>remain. ha_int_remainder small small = Some (Inr remain) \<and> ha_int_value remain = 0)
    \<and> get_gcd small small = Some (Inr small)
    \<and> (ha_int_value small = 1 \<longrightarrow>
          (\<exists>remain. ha_int_remainder big small = Some (Inr remain) \<and> ha_int_value remain = 0)
          \<and> get_gcd small big = Some (Inr small))"
proof -
  have step: "\<exists>remain. ha_int_remainder b s = Some (Inr remain) \<and> ha_int_valid remain
          \<and> ha_int_value remain = ha_int_value b mod ha_int_value s
          \<and> (ha_int_value remain = 0 \<longrightarrow> get_gcd s b = Some (Inr s))
          \<and> (ha_int_value remain \<noteq> 0 \<longrightarrow>
                get_gcd s b = get_gcd remain s
                \<and> 0 < ha_int_value remain \<and> ha_int_value remain < ha_int_value s)"
    if s: "ha_int_valid s" "0 < ha_int_value s" and b: "ha_int_valid b" "0 < ha_int_value b"
    for s b
  proof -
    have nz: "ha_int_value s \<noteq> 0" using s(2) by simp
    from ha_int_remainder_correct [OF b(1) s(1) nz]
    obtain remain where r: "ha_int_remainder b s = Some (Inr remain)" "ha_int_valid remain"
      "ha_int_value remain = ha_int_value b smod ha_int_value s"
      by blast
    have rv: "ha_int_value remain = ha_int_value b mod ha_int_value s"
      using s(2) b(2) by (simp add: r(3) signed_modulo_int_def sgn_if)
    have sg: "ha_int_sign s > 0" "ha_int_sign b > 0"
      using s b by (simp_all add: ha_int_sign_eq)
    have sr: "ha_int_sign remain = 0 \<longleftrightarrow> ha_int_value remain = 0"
      using r(2) by (simp add: ha_int_sign_eq sgn_if)
    have "get_gcd s b = Some (Inr s)" if "ha_int_value remain = 0"
      using sg sr r(1) that by (subst get_gcd.simps) simp
    moreover have "get_gcd s b = get_gcd remain s" if "ha_int_value remain \<noteq> 0"
      using sg sr r(1) that by (subst get_gcd.simps) simp
    moreover have "0 \<le> ha_int_value remain" "ha_int_value remain < ha_int_value s"
      using s(2) by (simp_all add: rv)
    ultimately show ?thesis
      using r(1,2) rv by force
  qed
  note 1 = get_gcd_correct [OF assms]
  note 2 = step [OF assms(1,3) assms(2,4)]
  from step [OF assms(1,3) assms(1,3)]
  have 3: "(\<exists>remain. ha_int_remainder small small = Some (Inr remain) \<and> ha_int_value remain = 0)
      \<and> get_gcd small small = Some (Inr small)"
    by auto
  have 4: "(\<exists>remain. ha_int_remainder big small = Some (Inr remain) \<and> ha_int_value remain = 0)
          \<and> get_gcd small big = Some (Inr small)" if "ha_int_value small = 1"
    using 2 that by auto
  show ?thesis
    using 1 2 3 4 by blast
qed

theorem get_gcd_terminates_with_gcd_witness:
  "ha_int_valid \<lparr>sign = True, digits = ''4''\<rparr> \<and> ha_int_valid \<lparr>sign = True, digits = ''6''\<rparr>
   \<and> 0 < ha_int_value \<lparr>sign = True, digits = ''4''\<rparr>
   \<and> 0 < ha_int_value \<lparr>sign = True, digits = ''6''\<rparr>
   \<and> (\<exists>g. get_gcd \<lparr>sign = True, digits = ''4''\<rparr> \<lparr>sign = True, digits = ''6''\<rparr> = Some (Inr g)
        \<and> ha_int_valid g \<and> ha_int_value g = 2)
   \<and> get_gcd \<lparr>sign = True, digits = ''4''\<rparr> \<lparr>sign = True, digits = ''4''\<rparr>
        = Some (Inr \<lparr>sign = True, digits = ''4''\<rparr>)"
proof -
  let ?four = "\<lparr>sign = True, digits = ''4''\<rparr>" and ?six = "\<lparr>sign = True, digits = ''6''\<rparr>"
  have a: "ha_int_valid ?four" "ha_int_valid ?six"
    by code_simp+
  have v: "ha_int_value ?four = 4" "ha_int_value ?six = 6"
    by (simp_all add: ha_int_value_def dig_def)
  have p: "0 < ha_int_value ?four" "0 < ha_int_value ?six"
    by (simp_all add: v)
  have g: "gcd (4::int) 6 = 2"
    by code_simp
  from get_gcd_terminates_with_gcd [OF a p]
  have "(\<exists>g. get_gcd ?four ?six = Some (Inr g) \<and> ha_int_valid g \<and> ha_int_value g = 2)"
    and "get_gcd ?four ?four = Some (Inr ?four)"
    unfolding v g by blast+
  then show ?thesis
    using a p by blast
qed

text \<open>
  C6 (as amended): \<open>ha_frac_div\<close> requires a non-zero divisor and asserts it.  For every
  fraction \<open>n\<close> and every zero fraction \<open>m\<close> the assertion fails and the call aborts: no
  fraction and no \<open>DivisionByZero\<close> value is returned to the caller; in particular dividing
  \<open>create "1" "2"\<close> by \<open>create "0" "1"\<close> aborts.  For canonical \<open>n\<close> and non-zero canonical
  \<open>m\<close> the call returns the canonical fraction of value \<open>n / m\<close>.
\<close>

theorem ha_frac_div_by_zero_aborts:
  "(ha_frac_valid m \<and> ha_frac_value m = 0 \<longrightarrow> ha_frac_div n m = Some (Inl Abort))
   \<and> (ha_int_sign (nume m) = 0 \<longrightarrow> ha_frac_div n m = Some (Inl Abort))
   \<and> (ha_frac_valid n \<and> ha_frac_valid m \<and> ha_frac_value m \<noteq> 0 \<longrightarrow>
        (\<exists>f. ha_frac_div n m = Some (Inr f) \<and> ha_frac_valid f
           \<and> ha_frac_value f = ha_frac_value n / ha_frac_value m))"
proof (intro conjI impI)
  assume a: "ha_frac_valid m \<and> ha_frac_value m = 0"
  then have "ha_int_value (nume m) = 0"
    using ha_frac_valid_sign(2) [of m] by simp
  moreover have "ha_int_valid (nume m)"
    using a by (simp add: ha_frac_valid_def)
  ultimately have "ha_int_sign (nume m) = 0"
    by (simp add: ha_int_sign_eq)
  then show "ha_frac_div n m = Some (Inl Abort)"
    by (rule ha_frac_div_zero)
next
  assume "ha_int_sign (nume m) = 0"
  then show "ha_frac_div n m = Some (Inl Abort)"
    by (rule ha_frac_div_zero)
next
  assume a: "ha_frac_valid n \<and> ha_frac_valid m \<and> ha_frac_value m \<noteq> 0"
  then have "ha_int_value (nume m) \<noteq> 0"
    using ha_frac_valid_sign(2) [of m] by simp
  then show "\<exists>f. ha_frac_div n m = Some (Inr f) \<and> ha_frac_valid f
           \<and> ha_frac_value f = ha_frac_value n / ha_frac_value m"
    using a by (intro ha_frac_div_correct) simp_all
qed

theorem ha_frac_div_by_zero_aborts_witness:
  "ha_frac_valid \<lparr>nega = False, nume = \<lparr>sign = True, digits = ''0''\<rparr>,
                   denom = \<lparr>sign = True, digits = ''1''\<rparr>\<rparr>
   \<and> ha_frac_value \<lparr>nega = False, nume = \<lparr>sign = True, digits = ''0''\<rparr>,
                      denom = \<lparr>sign = True, digits = ''1''\<rparr>\<rparr> = 0
   \<and> ha_frac_div \<lparr>nega = False, nume = \<lparr>sign = True, digits = ''1''\<rparr>,
                    denom = \<lparr>sign = True, digits = ''2''\<rparr>\<rparr>
                  \<lparr>nega = False, nume = \<lparr>sign = True, digits = ''0''\<rparr>,
                    denom = \<lparr>sign = True, digits = ''1''\<rparr>\<rparr> = Some (Inl Abort)
   \<and> ha_frac_valid \<lparr>nega = False, nume = \<lparr>sign = True, digits = ''1''\<rparr>,
                     denom = \<lparr>sign = True, digits = ''2''\<rparr>\<rparr>
   \<and> ha_frac_value \<lparr>nega = False, nume = \<lparr>sign = True, digits = ''1''\<rparr>,
                      denom = \<lparr>sign = True, digits = ''2''\<rparr>\<rparr> \<noteq> 0
   \<and> (\<exists>f. ha_frac_div \<lparr>nega = False, nume = \<lparr>sign = True, digits = ''1''\<rparr>,
                          denom = \<lparr>sign = True, digits = ''2''\<rparr>\<rparr>
                        \<lparr>nega = False, nume = \<lparr>sign = True, digits = ''1''\<rparr>,
                          denom = \<lparr>sign = True, digits = ''2''\<rparr>\<rparr> = Some (Inr f)
          \<and> ha_frac_valid f \<and> ha_frac_value f = 1)"
proof -
  let ?zero = "\<lparr>nega = False, nume = \<lparr>sign = True, digits = ''0''\<rparr>,
                 denom = \<lparr>sign = True, digits = ''1''\<rparr>\<rparr>"
  let ?half = "\<lparr>nega = False, nume = \<lparr>sign = True, digits = ''1''\<rparr>,
                 denom = \<lparr>sign = True, digits = ''2''\<rparr>\<rparr>"
  have vz: "ha_frac_valid ?zero" and vh: "ha_frac_valid ?half"
    by (simp_all add: ha_frac_valid_def ha_int_valid_def digits_ok_def digit_char_iff
        ha_int_value_def dig_def)
  have z: "ha_frac_value ?zero = 0" and h: "ha_frac_value ?half = 1 / 2"
    by (simp_all add: ha_frac_value_def ha_int_value_def dig_def)
  have h0: "ha_frac_value ?half \<noteq> 0"
    by (simp add: h)
  have 1: "ha_frac_div ?half ?zero = Some (Inl Abort)"
    using ha_frac_div_by_zero_aborts [of ?zero ?half] vz z by blast
  have "\<exists>f. ha_frac_div ?half ?half = Some (Inr f) \<and> ha_frac_valid f
      \<and> ha_frac_value f = ha_frac_value ?half / ha_frac_value ?half"
    using ha_frac_div_by_zero_aborts [of ?half ?half] vh h0 by blast
  then have 2: "\<exists>f. ha_frac_div ?half ?half = Some (Inr f) \<and> ha_frac_valid f \<and> ha_frac_value f = 1"
    using h0 by simp
  show ?thesis
    using vz z 1 vh h0 2 by blast
qed

text \<open>
  A zero divisor does not surface as a typed \<open>DivisionByZero\<close> failure: dividing the parsed
  \<open>1/2\<close> by the parsed \<open>0/1\<close> trips the assertion of \<open>ha_frac_div\<close>.
\<close>

theorem ha_frac_div_by_zero_counterexample:
  "ha_frac_create ''1'' ''2''
      = Some (Inr \<lparr>nega = False, nume = \<lparr>sign = True, digits = ''1''\<rparr>,
                    denom = \<lparr>sign = True, digits = ''2''\<rparr>\<rparr>)
   \<and> ha_frac_create ''0'' ''1''
      = Some (Inr \<lparr>nega = False, nume = \<lparr>sign = True, digits = ''0''\<rparr>,
                    denom = \<lparr>sign = True, digits = ''1''\<rparr>\<rparr>)
   \<and> ha_frac_div \<lparr>nega = False, nume = \<lparr>sign = True, digits = ''1''\<rparr>,
                    denom = \<lparr>sign = True, digits = ''2''\<rparr>\<rparr>
                  \<lparr>nega = False, nume = \<lparr>sign = True, digits = ''0''\<rparr>,
                    denom = \<lparr>sign = True, digits = ''1''\<rparr>\<rparr>
      = Some (Inl Abort)
   \<and> ha_frac_div \<lparr>nega = False, nume = \<lparr>sign = True, digits = ''1''\<rparr>,
                    denom = \<lparr>sign = True, digits = ''2''\<rparr>\<rparr>
                  \<lparr>nega = False, nume = \<lparr>sign = True, digits = ''0''\<rparr>,
                    denom = \<lparr>sign = True, digits = ''1''\<rparr>\<rparr>
      \<noteq> Some (Inl DivisionByZero)"
proof -
  let ?zero = "\<lparr>nega = False, nume = \<lparr>sign = True, digits = ''0''\<rparr>,
                 denom = \<lparr>sign = True, digits = ''1''\<rparr>\<rparr>"
  let ?half = "\<lparr>nega = False, nume = \<lparr>sign = True, digits = ''1''\<rparr>,
                 denom = \<lparr>sign = True, digits = ''2''\<rparr>\<rparr>"
  have "ha_frac_create ''1'' ''2'' = Some (Inr ?half)"
    by code_simp
  moreover have "ha_frac_create ''0'' ''1'' = Some (Inr ?zero)"
    by code_simp
  moreover have "ha_frac_div ?half ?zero = Some (Inl Abort)"
    by code_simp
  ultimately show ?thesis by simp
qed

text \<open>
  C7: for every pair of canonical fractions \<open>n\<close> and \<open>m\<close>, \<open>ha_frac_add n m\<close> returns the
  exact rational sum \<open>n + m\<close> in canonical form.  When the denominators are equal the
  numerators and the denominator are taken as they are; otherwise the operands are brought to
  the common denominator \<open>(d div g) * b\<close> with \<open>g\<close> the gcd of the denominators \<open>b\<close> and \<open>d\<close>,
  the numerators being multiplied by the complementary cofactors \<open>d div g\<close> and \<open>b div g\<close>;
  the numerators are then summed and the result is reduced.  In particular the sum of the
  parsed \<open>1/2\<close> and \<open>1/3\<close> is the fraction parsed from \<open>5/6\<close>.
\<close>

theorem ha_frac_add_exact_sum:
  "(ha_frac_valid n \<and> ha_frac_valid m \<longrightarrow>
      (\<exists>f. ha_frac_add n m = Some (Inr f) \<and> ha_frac_valid f
         \<and> ha_frac_value f = ha_frac_value n + ha_frac_value m)
      \<and> (\<exists>x y z. ha_frac_add_operands n m = Some (Inr (x, y, z))
            \<and> (denom n = denom m \<longrightarrow> x = nume n \<and> y = nume m \<and> z = denom n)
            \<and> (denom n \<noteq> denom m \<longrightarrow>
                  ha_int_value x
                    = (ha_int_value (denom m) div gcd (ha_int_value (denom n)) (ha_int_value (denom m)))
                      * ha_int_value (nume n)
                \<and> ha_int_value y
                    = (ha_int_value (denom n) div gcd (ha_int_value (denom n)) (ha_int_value (denom m)))
                      * ha_int_value (nume m)
                \<and> ha_int_value z
                    = (ha_int_value (denom m) div gcd (ha_int_value (denom n)) (ha_int_value (denom m)))
                      * ha_int_value (denom n))))
   \<and> ha_frac_create ''1'' ''2''
        = Some (Inr \<lparr>nega = False, nume = \<lparr>sign = True, digits = ''1''\<rparr>,
                      denom = \<lparr>sign = True, digits = ''2''\<rparr>\<rparr>)
   \<and> ha_frac_create ''1'' ''3''
        = Some (Inr \<lparr>nega = False, nume = \<lparr>sign = True, digits = ''1''\<rparr>,
                      denom = \<lparr>sign = True, digits = ''3''\<rparr>\<rparr>)
   \<and> ha_frac_create ''5'' ''6''
        = Some (Inr \<lparr>nega = False, nume = \<lparr>sign = True, digits = ''5''\<rparr>,
                      denom = \<lparr>sign = True, digits = ''6''\<rparr>\<rparr>)
   \<and> ha_frac_add \<lparr>nega = False, nume = \<lparr>sign = True, digits = ''1''\<rparr>,
                    denom = \<lparr>sign = True, digits = ''2''\<rparr>\<rparr>
                  \<lparr>nega = False, nume = \<lparr>sign = True, digits = ''1''\<rparr>,
                    denom = \<lparr>sign = True, digits = ''3''\<rparr>\<rparr>
        = Some (Inr \<lparr>nega = False, nume = \<lparr>sign = True, digits = ''5''\<rparr>,
                      denom = \<lparr>sign = True, digits = ''6''\<rparr>\<rparr>)"
proof (intro conjI impI)
  assume a: "ha_frac_valid n \<and> ha_frac_valid m"
  then have n: "ha_frac_valid n" and m: "ha_frac_valid m"
    by simp_all
  have ns: "nega n \<longrightarrow> ha_int_value (nume n) \<noteq> 0"
    using n by (auto simp: ha_frac_valid_def)
  show "\<exists>f. ha_frac_add n m = Some (Inr f) \<and> ha_frac_valid f
         \<and> ha_frac_value f = ha_frac_value n + ha_frac_value m"
    by (rule ha_frac_add_correct [OF ha_frac_valid_wf [OF n] ns ha_frac_valid_wf [OF m]])
  have "ha_int_valid (denom n)" "ha_int_valid (denom m)"
    using n m by (simp_all add: ha_frac_valid_def)
  then have "denom n = denom m \<longleftrightarrow> ha_int_value (denom n) = ha_int_value (denom m)"
    using ha_int_value_inj by auto
  then show "\<exists>x y z. ha_frac_add_operands n m = Some (Inr (x, y, z))
            \<and> (denom n = denom m \<longrightarrow> x = nume n \<and> y = nume m \<and> z = denom n)
            \<and> (denom n \<noteq> denom m \<longrightarrow>
                  ha_int_value x
                    = (ha_int_value (denom m) div gcd (ha_int_value (denom n)) (ha_int_value (denom m)))
                      * ha_int_value (nume n)
                \<and> ha_int_value y
                    = (ha_int_value (denom n) div gcd (ha_int_value (denom n)) (ha_int_value (denom m)))
                      * ha_int_value (nume m)
                \<and> ha_int_value z
                    = (ha_int_value (denom m) div gcd (ha_int_value (denom n)) (ha_int_value (denom m)))
                      * ha_int_value (denom n))"
    using common_denominator [OF ha_frac_valid_wf [OF n] ha_frac_valid_wf [OF m]]
    by (simp only:) blast
qed (code_simp+)

theorem ha_frac_add_exact_sum_witness:
  "ha_frac_valid \<lparr>nega = True, nume = \<lparr>sign = True, digits = ''1''\<rparr>,
                   denom = \<lparr>sign = True, digits = ''4''\<rparr>\<rparr>
   \<and> ha_frac_valid \<lparr>nega = False, nume = \<lparr>sign = True, digits = ''1''\<rparr>,
                     denom = \<lparr>sign = True, digits = ''6''\<rparr>\<rparr>
   \<and> (\<exists>f. ha_frac_add \<lparr>nega = True, nume = \<lparr>sign = True, digits = ''1''\<rparr>,
                          denom = \<lparr>sign = True, digits = ''4''\<rparr>\<rparr>
                        \<lparr>nega = False, nume = \<lparr>sign = True, digits = ''1''\<rparr>,
                          denom = \<lparr>sign = True, digits = ''6''\<rparr>\<rparr> = Some (Inr f)
          \<and> ha_frac_valid f \<and> ha_frac_value f = - (1 / 12))
   \<and> (\<exists>x y z. ha_frac_add_operands
                  \<lparr>nega = True, nume = \<lparr>sign = True, digits = ''1''\<rparr>,
                    denom = \<lparr>sign = True, digits = ''4''\<rparr>\<rparr>
                  \<lparr>nega = False, nume = \<lparr>sign = True, digits = ''1''\<rparr>,
                    denom = \<lparr>sign = True, digits = ''6''\<rparr>\<rparr> = Some (Inr (x, y, z))
          \<and> ha_int_value x = 3 \<and> ha_int_value y = 2 \<and> ha_int_value z = 12)"
proof -
  let ?n = "\<lparr>nega = True, nume = \<lparr>sign = True, digits = ''1''\<rparr>,
              denom = \<lparr>sign = True, digits = ''4''\<rparr>\<rparr>"
  let ?m = "\<lparr>nega = False, nume = \<lparr>sign = True, digits = ''1''\<rparr>,
              denom = \<lparr>sign = True, digits = ''6''\<rparr>\<rparr>"
  have v: "ha_frac_valid ?n" "ha_frac_valid ?m"
    by (simp_all add: ha_frac_valid_def ha_int_valid_def digits_ok_def digit_char_iff
        ha_int_value_def dig_def)
  have e: "ha_frac_value ?n = - (1 / 4)" "ha_frac_value ?m = 1 / 6"
    by (simp_all add: ha_frac_value_def ha_int_value_def dig_def)
  have d: "ha_int_value (denom ?n) = 4" "ha_int_value (denom ?m) = 6"
    "ha_int_value (nume ?n) = 1" "ha_int_value (nume ?m) = 1" "denom ?n \<noteq> denom ?m"
    by (simp_all add: ha_int_value_def dig_def)
  have g: "gcd (4::int) 6 = 2"
    by code_simp
  from ha_frac_add_exact_sum [of ?n ?m] v
  have 1: "\<exists>f. ha_frac_add ?n ?m = Some (Inr f) \<and> ha_frac_valid f
         \<and> ha_frac_value f = ha_frac_value ?n + ha_frac_value ?m"
    and 2: "\<exists>x y z. ha_frac_add_operands ?n ?m = Some (Inr (x, y, z))
            \<and> (denom ?n \<noteq> denom ?m \<longrightarrow>
                  ha_int_value x
                    = (ha_int_value (denom ?m) div gcd (ha_int_value (denom ?n)) (ha_int_value (denom ?m)))
                      * ha_int_value (nume ?n)
                \<and> ha_int_value y
                    = (ha_int_value (denom ?n) div gcd (ha_int_value (denom ?n)) (ha_int_value (denom ?m)))
                      * ha_int_value (nume ?m)
                \<and> ha_int_value z
                    = (ha_int_value (denom ?m) div gcd (ha_int_value (denom ?n)) (ha_int_value (denom ?m)))
                      * ha_int_value (denom ?n))"
    by blast+
  have s: "ha_frac_value ?n + ha_frac_value ?m = - (1 / 12)"
    unfolding e by simp
  have r1: "\<exists>f. ha_frac_add ?n ?m = Some (Inr f) \<and> ha_frac_valid f \<and> ha_frac_value f = - (1 / 12)"
    using 1 unfolding s .
  from 2 d(5) obtain x y z where x: "ha_frac_add_operands ?n ?m = Some (Inr (x, y, z))"
    "ha_int_value x
        = (ha_int_value (denom ?m) div gcd (ha_int_value (denom ?n)) (ha_int_value (denom ?m)))
          * ha_int_value (nume ?n)"
    "ha_int_value y
        = (ha_int_value (denom ?n) div gcd (ha_int_value (denom ?n)) (ha_int_value (denom ?m)))
          * ha_int_value (nume ?m)"
    "ha_int_value z
        = (ha_int_value (denom ?m) div gcd (ha_int_value (denom ?n)) (ha_int_value (denom ?m)))
          * ha_int_value (denom ?n)"
    by blast
  have "ha_int_value x = 3" "ha_int_value y = 2" "ha_int_value z = 12"
    unfolding x(2,3,4) d(1,2,3,4) g by simp_all
  then have r2: "\<exists>x y z. ha_frac_add_operands ?n ?m = Some (Inr (x, y, z))
          \<and> ha_int_value x = 3 \<and> ha_int_value y = 2 \<and> ha_int_value z = 12"
    using x(1) by blast
  show ?thesis
    using v r1 r2 by blast
qed

text \<open>
  C8: BigInt comparison satisfies trichotomy: for every pair of BigInts \<open>n\<close> and \<open>m\<close>,
  \<open>ha_int_gt n m\<close> equals \<open>(not ha_int_gt m n) and (not ha_int_eq n m)\<close>.  On well-formed
  BigInts \<open>ha_int_gt\<close> is the strict order of the values and \<open>ha_int_eq\<close> their equality,
  so it is a strict total order (in particular transitive), and of two negative BigInts the
  one with the larger magnitude is the smaller.  The three-way result of \<open>ha_frac_cmp\<close> on
  canonical fractions satisfies the same trichotomy: it is \<open>1\<close>, \<open>0\<close> or \<open>-1\<close> as the first
  value is greater than, equal to or less than the second, it is \<open>1\<close> exactly when the
  converse comparison is not \<open>1\<close> and the result is not \<open>0\<close>, and it is \<open>0\<close> exactly for
  equal fractions.
\<close>

theorem comparison_trichotomy:
  "(ha_int_gt n m \<longleftrightarrow> \<not> ha_int_gt m n \<and> \<not> ha_int_eq n m)
   \<and> (ha_int_eq n m \<longleftrightarrow> n = m)
   \<and> (ha_int_valid n \<and> ha_int_valid m \<longrightarrow>
        (ha_int_gt n m \<longleftrightarrow> ha_int_value m < ha_int_value n)
        \<and> (ha_int_eq n m \<longleftrightarrow> ha_int_value n = ha_int_value m))
   \<and> (ha_int_valid n \<and> ha_int_valid m \<and> ha_int_valid k \<and> ha_int_gt n m \<and> ha_int_gt m k
        \<longrightarrow> ha_int_gt n k)
   \<and> (ha_int_valid n \<and> ha_int_valid m \<and> \<not> sign n \<and> \<not> sign m
        \<and> \<bar>ha_int_value m\<bar> < \<bar>ha_int_value n\<bar>
        \<longrightarrow> ha_int_gt m n \<and> \<not> ha_int_gt n m)
   \<and> (ha_frac_valid p \<and> ha_frac_valid q \<longrightarrow>
        (\<exists>c c'. ha_frac_cmp p q = Some (Inr c) \<and> ha_frac_cmp q p = Some (Inr c')
           \<and> c = (if ha_frac_value p < ha_frac_value q then - 1
                   else if ha_frac_value p = ha_frac_value q then 0 else 1)
           \<and> c' = - c
           \<and> (c = 1 \<longleftrightarrow> c' \<noteq> 1 \<and> c \<noteq> 0)
           \<and> (c = 0 \<longleftrightarrow> p = q)))"
proof (intro conjI impI)
  show "ha_int_gt n m \<longleftrightarrow> \<not> ha_int_gt m n \<and> \<not> ha_int_eq n m"
    by (rule ha_int_gt_trichotomy)
  show "ha_int_eq n m \<longleftrightarrow> n = m"
    by (rule ha_int_eq_iff)
next
  assume a: "ha_int_valid n \<and> ha_int_valid m"
  then show "ha_int_gt n m \<longleftrightarrow> ha_int_value m < ha_int_value n"
    by (simp add: ha_int_gt_iff)
  show "ha_int_eq n m \<longleftrightarrow> ha_int_value n = ha_int_value m"
    using a ha_int_value_inj [of n m] by (auto simp: ha_int_eq_iff)
next
  assume "ha_int_valid n \<and> ha_int_valid m \<and> ha_int_valid k \<and> ha_int_gt n m \<and> ha_int_gt m k"
  then have v: "ha_int_valid n" "ha_int_valid m" "ha_int_valid k"
    and g: "ha_int_gt n m" "ha_int_gt m k"
    by simp_all
  have "ha_int_value m < ha_int_value n" "ha_int_value k < ha_int_value m"
    using g v by (simp_all add: ha_int_gt_iff)
  then have "ha_int_value k < ha_int_value n"
    by simp
  then show "ha_int_gt n k"
    using v by (simp add: ha_int_gt_iff)
next
  assume a: "ha_int_valid n \<and> ha_int_valid m \<and> \<not> sign n \<and> \<not> sign m
      \<and> \<bar>ha_int_value m\<bar> < \<bar>ha_int_value n\<bar>"
  then have "ha_int_value n < 0" "ha_int_value m < 0"
    using ha_int_value_sign [of n] ha_int_value_sign [of m] by simp_all
  then have "ha_int_value n < ha_int_value m"
    using a by simp
  then show "ha_int_gt m n" "\<not> ha_int_gt n m"
    using a by (simp_all add: ha_int_gt_iff)
next
  assume a: "ha_frac_valid p \<and> ha_frac_valid q"
  then have p: "ha_frac_valid p" and q: "ha_frac_valid q"
    by simp_all
  let ?c = "if ha_frac_value p < ha_frac_value q then - 1
      else if ha_frac_value p = ha_frac_value q then 0 else (1::int)"
  let ?c' = "if ha_frac_value q < ha_frac_value p then - 1
      else if ha_frac_value q = ha_frac_value p then 0 else (1::int)"
  have 1: "ha_frac_cmp p q = Some (Inr ?c)" and 2: "ha_frac_cmp q p = Some (Inr ?c')"
    by (rule ha_frac_cmp_correct [OF p q], rule ha_frac_cmp_correct [OF q p])
  have 3: "?c' = - ?c"
    by auto
  have 4: "?c = 1 \<longleftrightarrow> ?c' \<noteq> 1 \<and> ?c \<noteq> 0"
    by auto
  have "ha_frac_value p = ha_frac_value q \<longleftrightarrow> p = q"
    using ha_frac_value_inj [OF p q] by auto
  then have 5: "?c = 0 \<longleftrightarrow> p = q"
    by auto
  show "\<exists>c c'. ha_frac_cmp p q = Some (Inr c) \<and> ha_frac_cmp q p = Some (Inr c')
           \<and> c = (if ha_frac_value p < ha_frac_value q then - 1
                   else if ha_frac_value p = ha_frac_value q then 0 else 1)
           \<and> c' = - c
           \<and> (c = 1 \<longleftrightarrow> c' \<noteq> 1 \<and> c \<noteq> 0)
           \<and> (c = 0 \<longleftrightarrow> p = q)"
    using 1 2 3 4 5 by blast
qed

theorem comparison_trichotomy_witness:
  "ha_int_valid \<lparr>sign = False, digits = ''7''\<rparr> \<and> ha_int_valid \<lparr>sign = False, digits = ''21''\<rparr>
   \<and> ha_int_valid \<lparr>sign = True, digits = ''5''\<rparr>
   \<and> \<bar>ha_int_value \<lparr>sign = False, digits = ''7''\<rparr>\<bar> < \<bar>ha_int_value \<lparr>sign = False, digits = ''21''\<rparr>\<bar>
   \<and> ha_int_gt \<lparr>sign = False, digits = ''7''\<rparr> \<lparr>sign = False, digits = ''21''\<rparr>
   \<and> \<not> ha_int_gt \<lparr>sign = False, digits = ''21''\<rparr> \<lparr>sign = False, digits = ''7''\<rparr>
   \<and> \<not> ha_int_eq \<lparr>sign = False, digits = ''7''\<rparr> \<lparr>sign = False, digits = ''21''\<rparr>
   \<and> ha_int_gt \<lparr>sign = True, digits = ''5''\<rparr> \<lparr>sign = False, digits = ''7''\<rparr>
   \<and> ha_int_gt \<lparr>sign = True, digits = ''5''\<rparr> \<lparr>sign = False, digits = ''21''\<rparr>
   \<and> ha_frac_valid \<lparr>nega = False, nume = \<lparr>sign = True, digits = ''1''\<rparr>,
                     denom = \<lparr>sign = True, digits = ''2''\<rparr>\<rparr>
   \<and> ha_frac_valid \<lparr>nega = False, nume = \<lparr>sign = True, digits = ''2''\<rparr>,
                     denom = \<lparr>sign = True, digits = ''3''\<rparr>\<rparr>
   \<and> ha_frac_cmp \<lparr>nega = False, nume = \<lparr>sign = True, digits = ''1''\<rparr>,
                    denom = \<lparr>sign = True, digits = ''2''\<rparr>\<rparr>
                  \<lparr>nega = False, nume = \<lparr>sign = True, digits = ''2''\<rparr>,
                    denom = \<lparr>sign = True, digits = ''3''\<rparr>\<rparr> = Some (Inr (- 1))
   \<and> ha_frac_cmp \<lparr>nega = False, nume = \<lparr>sign = True, digits = ''2''\<rparr>,
                    denom = \<lparr>sign = True, digits = ''3''\<rparr>\<rparr>
                  \<lparr>nega = False, nume = \<lparr>sign = True, digits = ''1''\<rparr>,
                    denom = \<lparr>sign = True, digits = ''2''\<rparr>\<rparr> = Some (Inr 1)"
proof -
  let ?n = "\<lparr>sign = False, digits = ''21''\<rparr>" and ?m = "\<lparr>sign = False, digits = ''7''\<rparr>"
  let ?k = "\<lparr>sign = True, digits = ''5''\<rparr>"
  let ?p = "\<lparr>nega = False, nume = \<lparr>sign = True, digits = ''1''\<rparr>,
              denom = \<lparr>sign = True, digits = ''2''\<rparr>\<rparr>"
  let ?q = "\<lparr>nega = False, nume = \<lparr>sign = True, digits = ''2''\<rparr>,
              denom = \<lparr>sign = True, digits = ''3''\<rparr>\<rparr>"
  have v: "ha_int_valid ?n" "ha_int_valid ?m" "ha_int_valid ?k" "\<not> sign ?n" "\<not> sign ?m"
    by (simp_all add: ha_int_valid_def digits_ok_def digit_char_iff)
  have b: "\<bar>ha_int_value ?m\<bar> < \<bar>ha_int_value ?n\<bar>" "ha_int_value ?m < ha_int_value ?k"
    by (simp_all add: ha_int_value_def dig_def)
  have f: "ha_frac_valid ?p" "ha_frac_valid ?q"
    by (simp_all add: ha_frac_valid_def ha_int_valid_def digits_ok_def digit_char_iff
        ha_int_value_def dig_def)
  have e: "ha_frac_value ?p = 1 / 2" "ha_frac_value ?q = 2 / 3"
    by (simp_all add: ha_frac_value_def ha_int_value_def dig_def)
  note t = comparison_trichotomy [of ?n ?m ?k ?p ?q]
  note t' = comparison_trichotomy [of ?k ?m ?n ?p ?q]
  have 1: "ha_int_gt ?m ?n \<and> \<not> ha_int_gt ?n ?m"
    using t v b(1) by blast
  have 2: "\<not> ha_int_eq ?m ?n"
    using comparison_trichotomy [of ?m ?n ?k ?p ?q] 1 by blast
  have 3: "ha_int_gt ?k ?m"
    using t' v b(2) by blast
  have 4: "ha_int_gt ?k ?n"
    using t' v 1 3 by blast
  from t f obtain c c' where c: "ha_frac_cmp ?p ?q = Some (Inr c)" "ha_frac_cmp ?q ?p = Some (Inr c')"
    "c = (if ha_frac_value ?p < ha_frac_value ?q then - 1
          else if ha_frac_value ?p = ha_frac_value ?q then 0 else 1)"
    "c' = - c"
    by blast
  have "c = - 1"
    unfolding c(3) e by simp
  then have 5: "ha_frac_cmp ?p ?q = Some (Inr (- 1))" "ha_frac_cmp ?q ?p = Some (Inr 1)"
    using c(1,2,4) by simp_all
  show ?thesis
    using v b 1 2 3 4 f 5 by blast
qed

text \<open>
  C2: every fraction returned by a success path of \<open>ha_frac_create\<close>, \<open>ha_frac_add\<close>,
  \<open>ha_frac_sub\<close>, \<open>ha_frac_mult\<close> or \<open>ha_frac_div\<close> (on canonical operands) satisfies the
  canonical-form invariants \<open>ha_frac_valid\<close>: numerator and denominator have gcd 1, the
  denominator is strictly positive, a zero value is stored exactly as
  \<open>(negative = false, numerator = 0, denominator = 1)\<close>, and the sign is carried by the
  negative flag only, numerator and denominator being non-negative magnitudes.  The success
  paths exist: \<open>ha_frac_create\<close> succeeds on two valid decimal strings with a non-zero
  denominator, the arithmetic operations on canonical operands, division for a non-zero
  divisor.
\<close>

theorem fraction_results_canonical:
  "(ha_frac_create a b = Some (Inr f) \<longrightarrow> ha_frac_valid f)
   \<and> (valid_decimal a \<and> valid_decimal b \<and> b \<noteq> ''0'' \<longrightarrow>
        (\<exists>f'. ha_frac_create a b = Some (Inr f') \<and> ha_frac_valid f'))
   \<and> (ha_frac_valid n \<and> ha_frac_valid m \<longrightarrow>
        (\<exists>f'. ha_frac_add n m = Some (Inr f') \<and> ha_frac_valid f')
        \<and> (\<exists>f'. ha_frac_sub n m = Some (Inr f') \<and> ha_frac_valid f')
        \<and> (\<exists>f'. ha_frac_mult n m = Some (Inr f') \<and> ha_frac_valid f')
        \<and> (ha_frac_value m \<noteq> 0 \<longrightarrow> (\<exists>f'. ha_frac_div n m = Some (Inr f') \<and> ha_frac_valid f'))
        \<and> (ha_frac_div n m = Some (Inr r) \<longrightarrow> ha_frac_valid r))
   \<and> (ha_frac_valid g \<longrightarrow>
        gcd (ha_int_value (nume g)) (ha_int_value (denom g)) = 1
        \<and> 0 < ha_int_value (denom g) \<and> 0 \<le> ha_int_value (nume g)
        \<and> sign (nume g) \<and> sign (denom g)
        \<and> ha_int_valid (nume g) \<and> ha_int_valid (denom g)
        \<and> (nega g \<longleftrightarrow> ha_frac_value g < 0)
        \<and> (ha_frac_value g = 0 \<longrightarrow>
              nega g = False \<and> nume g = \<lparr>sign = True, digits = ''0''\<rparr>
              \<and> denom g = \<lparr>sign = True, digits = ''1''\<rparr>))"
proof (intro conjI impI)
  assume "ha_frac_create a b = Some (Inr f)"
  then show "ha_frac_valid f"
    by (rule ha_frac_create_returned)
next
  assume a: "valid_decimal a \<and> valid_decimal b \<and> b \<noteq> ''0''"
  then obtain na nb where na: "ha_int_create a = Inr na" and nb: "ha_int_create b = Inr nb"
    by (auto simp: ha_int_create_eq)
  have vb: "ha_int_valid nb" using nb by (rule ha_int_create_valid)
  have "ha_int_value nb \<noteq> 0"
  proof
    assume "ha_int_value nb = 0"
    then have "nb = \<lparr>sign = True, digits = ''0''\<rparr>"
      using vb ha_int_valid_zero by (intro ha_int_value_inj) simp_all
    then have "ha_int_to_str nb = ''0''"
      by (simp add: ha_int_to_str_eq)
    then show False
      using a ha_int_to_str_create [OF nb] by simp
  qed
  from ha_frac_create_strings [OF na nb this]
  show "\<exists>f'. ha_frac_create a b = Some (Inr f') \<and> ha_frac_valid f'"
    by blast
next
  assume a: "ha_frac_valid n \<and> ha_frac_valid m"
  then have n: "ha_frac_valid n" and m: "ha_frac_valid m"
    by simp_all
  have ns: "nega n \<longrightarrow> ha_int_value (nume n) \<noteq> 0"
    using n by (auto simp: ha_frac_valid_def)
  show "\<exists>f'. ha_frac_add n m = Some (Inr f') \<and> ha_frac_valid f'"
    using ha_frac_add_correct [OF ha_frac_valid_wf [OF n] ns ha_frac_valid_wf [OF m]] by blast
  show "\<exists>f'. ha_frac_sub n m = Some (Inr f') \<and> ha_frac_valid f'"
    using ha_frac_sub_correct [OF n m] by blast
  show "\<exists>f'. ha_frac_mult n m = Some (Inr f') \<and> ha_frac_valid f'"
    using ha_frac_mult_correct [OF ha_frac_valid_wf [OF n] ha_frac_valid_wf [OF m]] by blast
  have d: "\<exists>f'. ha_frac_div n m = Some (Inr f') \<and> ha_frac_valid f'" if "ha_frac_value m \<noteq> 0"
  proof -
    have "ha_int_value (nume m) \<noteq> 0"
      using that ha_frac_valid_sign(2) [OF m] by simp
    from ha_frac_div_correct [OF n m this] show ?thesis by blast
  qed
  then show "ha_frac_value m \<noteq> 0 \<Longrightarrow> \<exists>f'. ha_frac_div n m = Some (Inr f') \<and> ha_frac_valid f'" .
  show "ha_frac_valid r" if r: "ha_frac_div n m = Some (Inr r)"
  proof (cases "ha_frac_value m = 0")
    case True
    then have "ha_int_value (nume m) = 0"
      using ha_frac_valid_sign(2) [OF m] by simp
    moreover have "ha_int_valid (nume m)"
      using m by (simp add: ha_frac_valid_def)
    ultimately have "ha_int_sign (nume m) = 0"
      by (simp add: ha_int_sign_eq)
    then have "ha_frac_div n m = Some (Inl Abort)"
      by (rule ha_frac_div_zero)
    then show ?thesis using r by simp
  next
    case False
    then show ?thesis using d r by auto
  qed
next
  assume g: "ha_frac_valid g"
  then show "gcd (ha_int_value (nume g)) (ha_int_value (denom g)) = 1"
    "0 < ha_int_value (denom g)" "sign (nume g)" "sign (denom g)"
    "ha_int_valid (nume g)" "ha_int_valid (denom g)"
    by (simp_all add: ha_frac_valid_def)
  show "0 \<le> ha_int_value (nume g)"
    using g by (intro ha_frac_wf_nonneg ha_frac_valid_wf)
  show "nega g \<longleftrightarrow> ha_frac_value g < 0"
    by (rule ha_frac_valid_sign(1) [OF g])
  assume z: "ha_frac_value g = 0"
  then have nz: "ha_int_value (nume g) = 0"
    using ha_frac_valid_sign(2) [OF g] by simp
  then show "nega g = False"
    using g by (simp add: ha_frac_valid_def)
  show "nume g = \<lparr>sign = True, digits = ''0''\<rparr>"
    using g nz ha_int_valid_zero by (intro ha_int_value_inj) (simp_all add: ha_frac_valid_def)
  have "digits (denom g) = ''1''" "sign (denom g)"
    using g nz by (simp_all add: ha_frac_valid_def)
  then show "denom g = \<lparr>sign = True, digits = ''1''\<rparr>"
    by (cases "denom g") simp
qed

theorem fraction_results_canonical_witness:
  "ha_frac_create ''12'' ''34''
      = Some (Inr \<lparr>nega = False, nume = \<lparr>sign = True, digits = ''6''\<rparr>,
                    denom = \<lparr>sign = True, digits = ''71''\<rparr>\<rparr>)
   \<and> ha_frac_valid \<lparr>nega = False, nume = \<lparr>sign = True, digits = ''6''\<rparr>,
                     denom = \<lparr>sign = True, digits = ''71''\<rparr>\<rparr>
   \<and> gcd (ha_int_value \<lparr>sign = True, digits = ''6''\<rparr>) (ha_int_value \<lparr>sign = True, digits = ''71''\<rparr>) = 1
   \<and> valid_decimal ''12'' \<and> valid_decimal ''34'' \<and> ''34'' \<noteq> ''0''
   \<and> ha_frac_valid \<lparr>nega = True, nume = \<lparr>sign = True, digits = ''1''\<rparr>,
                     denom = \<lparr>sign = True, digits = ''2''\<rparr>\<rparr>
   \<and> ha_frac_value \<lparr>nega = True, nume = \<lparr>sign = True, digits = ''1''\<rparr>,
                      denom = \<lparr>sign = True, digits = ''2''\<rparr>\<rparr> \<noteq> 0
   \<and> (\<exists>f'. ha_frac_add \<lparr>nega = False, nume = \<lparr>sign = True, digits = ''6''\<rparr>,
                           denom = \<lparr>sign = True, digits = ''71''\<rparr>\<rparr>
                         \<lparr>nega = True, nume = \<lparr>sign = True, digits = ''1''\<rparr>,
                           denom = \<lparr>sign = True, digits = ''2''\<rparr>\<rparr> = Some (Inr f')
           \<and> ha_frac_valid f')
   \<and> (\<exists>f'. ha_frac_sub \<lparr>nega = False, nume = \<lparr>sign = True, digits = ''6''\<rparr>,
                           denom = \<lparr>sign = True, digits = ''71''\<rparr>\<rparr>
                         \<lparr>nega = True, nume = \<lparr>sign = True, digits = ''1''\<rparr>,
                           denom = \<lparr>sign = True, digits = ''2''\<rparr>\<rparr> = Some (Inr f')
           \<and> ha_frac_valid f')
   \<and> (\<exists>f'. ha_frac_mult \<lparr>nega = False, nume = \<lparr>sign = True, digits = ''6''\<rparr>,
                            denom = \<lparr>sign = True, digits = ''71''\<rparr>\<rparr>
                          \<lparr>nega = True, nume = \<lparr>sign = True, digits = ''1''\<rparr>,
                            denom = \<lparr>sign = True, digits = ''2''\<rparr>\<rparr> = Some (Inr f')
           \<and> ha_frac_valid f')
   \<and> ha_frac_div \<lparr>nega = False, nume = \<lparr>sign = True, digits = ''6''\<rparr>,
                    denom = \<lparr>sign = True, digits = ''71''\<rparr>\<rparr>
                  \<lparr>nega = True, nume = \<lparr>sign = True, digits = ''1''\<rparr>,
                    denom = \<lparr>sign = True, digits = ''2''\<rparr>\<rparr>
      = Some (Inr \<lparr>nega = True, nume = \<lparr>sign = True, digits = ''21''\<rparr>,
                    denom = \<lparr>sign = True, digits = ''71''\<rparr>\<rparr>)
   \<and> ha_frac_valid \<lparr>nega = True, nume = \<lparr>sign = True, digits = ''21''\<rparr>,
                     denom = \<lparr>sign = True, digits = ''71''\<rparr>\<rparr>
   \<and> ha_frac_create ''0'' ''5''
      = Some (Inr \<lparr>nega = False, nume = \<lparr>sign = True, digits = ''0''\<rparr>,
                    denom = \<lparr>sign = True, digits = ''1''\<rparr>\<rparr>)
   \<and> ha_frac_valid \<lparr>nega = False, nume = \<lparr>sign = True, digits = ''0''\<rparr>,
                     denom = \<lparr>sign = True, digits = ''1''\<rparr>\<rparr>
   \<and> ha_frac_value \<lparr>nega = False, nume = \<lparr>sign = True, digits = ''0''\<rparr>,
                     denom = \<lparr>sign = True, digits = ''1''\<rparr>\<rparr> = 0"
proof -
  let ?f = "\<lparr>nega = False, nume = \<lparr>sign = True, digits = ''6''\<rparr>,
              denom = \<lparr>sign = True, digits = ''71''\<rparr>\<rparr>"
  let ?h = "\<lparr>nega = True, nume = \<lparr>sign = True, digits = ''1''\<rparr>,
              denom = \<lparr>sign = True, digits = ''2''\<rparr>\<rparr>"
  let ?r = "\<lparr>nega = True, nume = \<lparr>sign = True, digits = ''21''\<rparr>,
              denom = \<lparr>sign = True, digits = ''71''\<rparr>\<rparr>"
  let ?z = "\<lparr>nega = False, nume = \<lparr>sign = True, digits = ''0''\<rparr>,
              denom = \<lparr>sign = True, digits = ''1''\<rparr>\<rparr>"
  have c: "ha_frac_create ''12'' ''34'' = Some (Inr ?f)"
    by code_simp
  have cz: "ha_frac_create ''0'' ''5'' = Some (Inr ?z)"
    by code_simp
  have dv: "ha_frac_div ?f ?h = Some (Inr ?r)"
    by code_simp
  have d: "valid_decimal ''12''" "valid_decimal ''34''" "''34'' \<noteq> ''0''"
    by (simp_all add: valid_decimal_def digit_char_iff)
  have vh: "ha_frac_valid ?h"
    by (simp add: ha_frac_valid_def ha_int_valid_def digits_ok_def digit_char_iff
        ha_int_value_def dig_def)
  have h0: "ha_frac_value ?h \<noteq> 0"
    by (simp add: ha_frac_value_def ha_int_value_def dig_def)
  have z0: "ha_frac_value ?z = 0"
    by (simp add: ha_frac_value_def ha_int_value_def dig_def)
  note t = fraction_results_canonical [of "''12''" "''34''" ?f ?f ?h ?r ?f]
  note t' = fraction_results_canonical [of "''0''" "''5''" ?z ?f ?h ?r ?z]
  have vf: "ha_frac_valid ?f"
    using t c by blast
  then have g: "gcd (ha_int_value (nume ?f)) (ha_int_value (denom ?f)) = 1"
    using t by blast
  have s: "\<exists>f'. ha_frac_add ?f ?h = Some (Inr f') \<and> ha_frac_valid f'"
    "\<exists>f'. ha_frac_sub ?f ?h = Some (Inr f') \<and> ha_frac_valid f'"
    "\<exists>f'. ha_frac_mult ?f ?h = Some (Inr f') \<and> ha_frac_valid f'"
    using t vf vh by blast+
  have vr: "ha_frac_valid ?r"
    using t vf vh dv by blast
  have vz: "ha_frac_valid ?z"
    using t' cz by blast
  show ?thesis
    using c vf g d vh h0 s dv vr cz vz z0 by simp
qed

end
